theory Spec2Isabelle
  imports Main
begin

section \<open>The source tree and the destination\<close>

text \<open>
  Both scripts walk a directory tree with \<^verbatim>\<open>os.walk\<close> and read every eligible file
  with \<^verbatim>\<open>open(path, 'r', encoding='utf-8').read()\<close>. The model takes the tree as a
  value. For each file it records what that read does: it returns a text, it raises
  \<^verbatim>\<open>UnicodeDecodeError\<close>, or it raises another exception (whose message is kept, as
  the script prints it). The text is the value of the variable \<^verbatim>\<open>content\<close>; the
  text layer of Python's file objects (decoding, newline translation) lies below the
  model, on the reading and on the writing side. A run does not change the tree: the
  destination is taken to lie apart from the files that the traversal reads (the files
  that the scripts write end in \<^verbatim>\<open>.txt\<close>, which is not an eligible suffix).
\<close>

datatype rd = Text string | DecodeError | OtherError string

datatype tree = Tree (files: "(string \<times> rd) list") (dirs: "(string \<times> tree) list")

text \<open>
  An entry of the destination is a regular file with its content, or something that
  cannot be opened for writing (a directory of that name, a file without write
  permission); the latter keeps the message of the exception that \<^verbatim>\<open>open\<close> raises.
  A destination directory maps file names to entries. Writing to a stream that has been
  opened is taken to succeed.
\<close>

datatype dnode = Regular string | Unwritable string

type_synonym ddir = "string \<rightharpoonup> dnode"

datatype error = MakedirsFailed | OpenFailed string

record 'd run_state =
  dest :: 'd
  diag :: "string list"

section \<open>Names and paths\<close>

definition nl :: string where
  "nl = [CHR 0x0A]"

definition endswith :: "string \<Rightarrow> string \<Rightarrow> bool" where
  "endswith s suf = (length suf \<le> length s \<and> drop (length s - length suf) s = suf)"

definition extensions :: "string list" where
  "extensions = [''.ts'', ''.java'', ''.properties'', ''.xml'', ''.py'', ''.md'', ''.sql'']"

text \<open>\<^verbatim>\<open>file.endswith(('.ts', '.java', '.properties', '.xml', '.py', '.md', '.sql'))\<close>\<close>

definition eligible :: "string \<Rightarrow> bool" where
  "eligible file = list_ex (endswith file) extensions"

text \<open>\<^verbatim>\<open>os.path.join(a, b)\<close> of posixpath, for two arguments.\<close>

definition path_join :: "string \<Rightarrow> string \<Rightarrow> string" where
  "path_join a b =
     (if b \<noteq> [] \<and> hd b = CHR ''/'' then b
      else if a = [] \<or> last a = CHR ''/'' then a @ b
      else a @ ''/'' @ b)"

text \<open>\<^verbatim>\<open>s.split(os.sep)\<close>, with \<^verbatim>\<open>os.sep\<close> the slash.\<close>

fun split_sep :: "string \<Rightarrow> string list" where
  "split_sep [] = [[]]"
| "split_sep (c # cs) =
     (if c = CHR ''/'' then [] # split_sep cs
      else (case split_sep cs of w # ws \<Rightarrow> (c # w) # ws | [] \<Rightarrow> [[c]]))"

text \<open>
  \<^verbatim>\<open>os.path.relpath(path, src_dir)\<close> for a path that os.walk built below
  \<^verbatim>\<open>src_dir\<close>: the names from \<^verbatim>\<open>src_dir\<close> down to it, joined by the separator
  (and \<^verbatim>\<open>'.'\<close> for \<^verbatim>\<open>src_dir\<close> itself).
\<close>

fun relpath :: "string list \<Rightarrow> string" where
  "relpath [] = ''.''"
| "relpath [s] = s"
| "relpath (s # t # ss) = s @ ''/'' @ relpath (t # ss)"

section \<open>The traversal\<close>

text \<open>
  \<^verbatim>\<open>for root, dirs, files in os.walk(src_dir)\<close>, top-down: a directory is yielded
  before its subdirectories, and the subdirectories walked are those left in
  \<^verbatim>\<open>dirs\<close> after the loop body has run. In all three loops the body starts with
  \<^verbatim>\<open>dirs[:] = [d for d in dirs if d not in exclude_dirs]\<close>, so an excluded name is
  never walked. A visit is \<^verbatim>\<open>root\<close>, the names from \<^verbatim>\<open>src_dir\<close> down to it, and
  \<^verbatim>\<open>files\<close> (each with what reading it does).
\<close>

type_synonym visit = "string \<times> string list \<times> (string \<times> rd) list"

fun walk :: "string list \<Rightarrow> string \<Rightarrow> string list \<Rightarrow> tree \<Rightarrow> visit list"
  and walk_dirs :: "string list \<Rightarrow> string \<Rightarrow> string list \<Rightarrow> (string \<times> tree) list \<Rightarrow> visit list"
where
  "walk exclude_dirs root rel (Tree fs ds) = (root, rel, fs) # walk_dirs exclude_dirs root rel ds"
| "walk_dirs exclude_dirs root rel [] = []"
| "walk_dirs exclude_dirs root rel ((d, sub) # ds) =
     (if d \<in> set exclude_dirs then []
      else walk exclude_dirs (path_join root d) (rel @ [d]) sub)
     @ walk_dirs exclude_dirs root rel ds"

section \<open>project\_as\_text copy.py\<close>

text \<open>
  \<^verbatim>\<open>save_files_as_text(src_dir, dest_file_path, exclude_dirs, single_file)\<close> has two
  branches, one per value of \<^verbatim>\<open>single_file\<close>: in the first the destination is a file, in
  the second a directory. Each branch is a function of the model. The state of a run is
  what has been written to the destination and the lines printed so far.
\<close>

subsection \<open>single\_file = True\<close>

text \<open>The body of the \<^verbatim>\<open>try\<close> statement and its two handlers, for one file.\<close>

fun single_file_step :: "string \<Rightarrow> string run_state \<Rightarrow> string \<times> rd \<Rightarrow> string run_state" where
  "single_file_step root st (file, r) =
     (if eligible file then
        (let src_file_path = path_join root file in
         case r of
           Text content \<Rightarrow>
             st\<lparr>dest := ((dest st @ (file @ ''.txt'' @ nl @ nl)) @ content)
                          @ (nl @ replicate 20 (CHR ''-'') @ nl)\<rparr>
         | DecodeError \<Rightarrow>
             st\<lparr>diag := diag st @ [''Skipping binary or incompatible file: '' @ src_file_path]\<rparr>
         | OtherError e \<Rightarrow>
             st\<lparr>diag := diag st @ [''Error processing file '' @ src_file_path @ '': '' @ e]\<rparr>)
      else st)"

fun single_visit :: "string run_state \<Rightarrow> visit \<Rightarrow> string run_state" where
  "single_visit st (root, rel, fs) = foldl (single_file_step root) st fs"

text \<open>
  \<^verbatim>\<open>open(dest_file_path, 'w')\<close> comes first and outside every \<^verbatim>\<open>try\<close>: if it
  raises, the run ends there. Otherwise the stream starts empty, whatever the file held.
\<close>

definition save_files_as_text_single ::
  "string \<Rightarrow> dnode option \<Rightarrow> string list \<Rightarrow> tree \<Rightarrow> error + string run_state" where
  "save_files_as_text_single src_dir dest_file exclude_dirs t =
     (case dest_file of
        Some (Unwritable e) \<Rightarrow> Inl (OpenFailed e)
      | _ \<Rightarrow> Inr (foldl single_visit \<lparr>dest = [], diag = []\<rparr> (walk exclude_dirs src_dir [] t)))"

subsection \<open>single\_file = False\<close>

text \<open>\<^verbatim>\<open>open(path, 'w')\<close> followed by \<^verbatim>\<open>write(content)\<close>.\<close>

definition write_file :: "ddir \<Rightarrow> string \<Rightarrow> string \<Rightarrow> string + ddir" where
  "write_file d name content =
     (case d name of
        Some (Unwritable e) \<Rightarrow> Inl e
      | _ \<Rightarrow> Inr (d(name \<mapsto> Regular content)))"

fun per_file_step :: "string \<Rightarrow> ddir run_state \<Rightarrow> string \<times> rd \<Rightarrow> ddir run_state" where
  "per_file_step root st (file, r) =
     (if eligible file then
        (let src_file_path = path_join root file;
             dest_name = file @ ''.txt'' in
         case r of
           Text content \<Rightarrow>
             (case write_file (dest st) dest_name content of
                Inr d \<Rightarrow> st\<lparr>dest := d\<rparr>
              | Inl e \<Rightarrow>
                  st\<lparr>diag := diag st @ [''Error processing file '' @ src_file_path @ '': '' @ e]\<rparr>)
         | DecodeError \<Rightarrow>
             st\<lparr>diag := diag st @ [''Skipping binary or incompatible file: '' @ src_file_path]\<rparr>
         | OtherError e \<Rightarrow>
             st\<lparr>diag := diag st @ [''Error processing file '' @ src_file_path @ '': '' @ e]\<rparr>)
      else st)"

fun per_file_visit :: "ddir run_state \<Rightarrow> visit \<Rightarrow> ddir run_state" where
  "per_file_visit st (root, rel, fs) = foldl (per_file_step root) st fs"

text \<open>
  \<^verbatim>\<open>if not os.path.exists(dest): os.makedirs(dest)\<close>. The destination directory is
  \<open>None\<close> when it does not exist; \<open>mk_ok\<close> says whether \<^verbatim>\<open>os.makedirs\<close> succeeds.
\<close>

definition ensure_dir :: "ddir option \<Rightarrow> bool \<Rightarrow> error + ddir" where
  "ensure_dir dest_dir mk_ok =
     (case dest_dir of
        Some d \<Rightarrow> Inr d
      | None \<Rightarrow> if mk_ok then Inr Map.empty else Inl MakedirsFailed)"

definition save_files_as_text_per_file ::
  "string \<Rightarrow> ddir option \<Rightarrow> bool \<Rightarrow> string list \<Rightarrow> tree \<Rightarrow> error + ddir run_state" where
  "save_files_as_text_per_file src_dir dest_dir mk_ok exclude_dirs t =
     (case ensure_dir dest_dir mk_ok of
        Inl e \<Rightarrow> Inl e
      | Inr d \<Rightarrow> Inr (foldl per_file_visit \<lparr>dest = d, diag = []\<rparr> (walk exclude_dirs src_dir [] t)))"

section \<open>project\_as\_text\_by\_modules.py\<close>

text \<open>\<^verbatim>\<open>open(path, 'a')\<close>: creates the file when it is missing, keeps its content otherwise.\<close>

definition open_append :: "ddir \<Rightarrow> string \<Rightarrow> string + ddir" where
  "open_append d name =
     (case d name of
        None \<Rightarrow> Inr (d(name \<mapsto> Regular []))
      | Some (Regular s) \<Rightarrow> Inr d
      | Some (Unwritable e) \<Rightarrow> Inl e)"

text \<open>\<^verbatim>\<open>write\<close> on a stream opened for append.\<close>

definition append_to :: "ddir \<Rightarrow> string \<Rightarrow> string \<Rightarrow> ddir" where
  "append_to d name s =
     (case d name of
        Some (Regular old) \<Rightarrow> d(name \<mapsto> Regular (old @ s))
      | _ \<Rightarrow> d(name \<mapsto> Regular s))"

fun module_file_step ::
  "string \<Rightarrow> string list \<Rightarrow> string \<Rightarrow> ddir run_state \<Rightarrow> string \<times> rd \<Rightarrow> ddir run_state" where
  "module_file_step root rel subfolder_file st (file, r) =
     (if eligible file then
        (let src_file_path = path_join root file;
             relative_file_path = relpath (rel @ [file]) in
         case r of
           Text content \<Rightarrow>
             st\<lparr>dest := append_to (append_to (append_to (dest st) subfolder_file
                            (relative_file_path @ nl @ nl)) subfolder_file content)
                            subfolder_file (nl @ ''---'' @ nl)\<rparr>
         | DecodeError \<Rightarrow>
             st\<lparr>diag := diag st @ [''Skipping binary or incompatible file: '' @ src_file_path]\<rparr>
         | OtherError e \<Rightarrow>
             st\<lparr>diag := diag st @ [''Error processing file '' @ src_file_path @ '': '' @ e]\<rparr>)
      else st)"

text \<open>
  One iteration of the loop over \<^verbatim>\<open>os.walk\<close>. In a subfolder,
  \<^verbatim>\<open>open(subfolder_file_path, 'a')\<close> stands outside the \<^verbatim>\<open>try\<close> statement: if it
  raises, the run ends with that exception.
\<close>

fun module_visit :: "string \<Rightarrow> ddir run_state \<Rightarrow> visit \<Rightarrow> error + ddir run_state" where
  "module_visit src_dir st (root, rel, fs) =
     (if root = src_dir then Inr (foldl (per_file_step root) st fs)
      else
        (let relative_folder_path = relpath rel;
             subfolder_file = hd (split_sep relative_folder_path) @ ''.txt'' in
         case open_append (dest st) subfolder_file of
           Inl e \<Rightarrow> Inl (OpenFailed e)
         | Inr d \<Rightarrow> Inr (foldl (module_file_step root rel subfolder_file) (st\<lparr>dest := d\<rparr>) fs)))"

fun module_visits :: "string \<Rightarrow> ddir run_state \<Rightarrow> visit list \<Rightarrow> error + ddir run_state" where
  "module_visits src_dir st [] = Inr st"
| "module_visits src_dir st (v # vs) =
     (case module_visit src_dir st v of
        Inl e \<Rightarrow> Inl e
      | Inr st' \<Rightarrow> module_visits src_dir st' vs)"

definition save_files_as_text_by_modules ::
  "string \<Rightarrow> ddir option \<Rightarrow> bool \<Rightarrow> string list \<Rightarrow> tree \<Rightarrow> error + ddir run_state" where
  "save_files_as_text_by_modules src_dir dest_dir mk_ok exclude_dirs t =
     (case ensure_dir dest_dir mk_ok of
        Inl e \<Rightarrow> Inl e
      | Inr d \<Rightarrow> module_visits src_dir \<lparr>dest = d, diag = []\<rparr> (walk exclude_dirs src_dir [] t))"

section \<open>The files of a tree, for stating what a run produces\<close>

text \<open>
  A name of a directory entry is not empty, holds no separator and is neither
  \<^verbatim>\<open>'.'\<close> nor \<^verbatim>\<open>'..'\<close>; the entries of one directory have different names.
\<close>

definition valid_name :: "string \<Rightarrow> bool" where
  "valid_name n = (n \<noteq> [] \<and> CHR ''/'' \<notin> set n \<and> n \<noteq> ''.'' \<and> n \<noteq> ''..'')"

fun wf_tree :: "tree \<Rightarrow> bool" and wf_forest :: "(string \<times> tree) list \<Rightarrow> bool" where
  "wf_tree (Tree fs ds) =
     (distinct (map fst fs @ map fst ds) \<and> list_all valid_name (map fst fs @ map fst ds)
      \<and> wf_forest ds)"
| "wf_forest [] = True"
| "wf_forest ((d, sub) # ds) = (wf_tree sub \<and> wf_forest ds)"

text \<open>
  The files outside the excluded directories, in the order of the traversal: the files
  of a directory as listed, then its subdirectories as listed, each with the names of
  the directories from the source root down to it.
\<close>

type_synonym entry = "string list \<times> string \<times> rd"

fun tree_files :: "string list \<Rightarrow> string list \<Rightarrow> tree \<Rightarrow> entry list"
  and forest_files :: "string list \<Rightarrow> string list \<Rightarrow> (string \<times> tree) list \<Rightarrow> entry list"
where
  "tree_files ex rel (Tree fs ds) = map (\<lambda>(f, r). (rel, f, r)) fs @ forest_files ex rel ds"
| "forest_files ex rel [] = []"
| "forest_files ex rel ((d, sub) # ds) =
     (if d \<in> set ex then [] else tree_files ex (rel @ [d]) sub) @ forest_files ex rel ds"

text \<open>The file \<open>f\<close> lies in the directory reached from the root of \<open>t\<close> by the names \<open>p\<close>.\<close>

primrec file_at :: "string list \<Rightarrow> tree \<Rightarrow> string \<Rightarrow> rd \<Rightarrow> bool" where
  "file_at [] t f r = ((f, r) \<in> set (files t))"
| "file_at (d # p) t f r = (\<exists>(d', sub) \<in> set (dirs t). d' = d \<and> file_at p sub f r)"

fun readable :: "rd \<Rightarrow> bool" where
  "readable (Text c) = True"
| "readable _ = False"

definition visit_files :: "visit \<Rightarrow> entry list" where
  "visit_files v = (case v of (root, rel, fs) \<Rightarrow> map (\<lambda>(f, r). (rel, f, r)) fs)"

text \<open>What single-file mode writes for one file.\<close>

fun single_entry :: "entry \<Rightarrow> string" where
  "single_entry (rel, file, Text content) =
     (if eligible file
      then file @ ''.txt'' @ nl @ nl @ content @ nl @ replicate 20 (CHR ''-'') @ nl
      else [])"
| "single_entry (rel, file, _) = []"

subsection \<open>What per-file mode writes\<close>

text \<open>
  The contents that the files of a list write to the destination file \<open>k\<close>, in order,
  and what \<open>k\<close> is afterwards: each write replaces the content, and an entry that cannot
  be opened stays as it is.
\<close>

fun written :: "string \<Rightarrow> entry \<Rightarrow> string list" where
  "written k (rel, file, Text content) =
     (if eligible file \<and> file @ ''.txt'' = k then [content] else [])"
| "written k (rel, file, _) = []"

definition writes :: "string \<Rightarrow> entry list \<Rightarrow> string list" where
  "writes k L = concat (map (written k) L)"

definition overwrite :: "dnode option \<Rightarrow> string list \<Rightarrow> dnode option" where
  "overwrite x ws =
     (case x of
        Some (Unwritable e) \<Rightarrow> x
      | _ \<Rightarrow> if ws = [] then x else Some (Regular (last ws)))"

subsection \<open>Pruning\<close>

text \<open>The tree without the directories that have an excluded name, at every depth.\<close>

fun prune :: "string list \<Rightarrow> tree \<Rightarrow> tree"
  and prune_dirs :: "string list \<Rightarrow> (string \<times> tree) list \<Rightarrow> (string \<times> tree) list"
where
  "prune ex (Tree fs ds) = Tree fs (prune_dirs ex ds)"
| "prune_dirs ex [] = []"
| "prune_dirs ex ((d, sub) # ds) =
     (if d \<in> set ex then [] else [(d, prune ex sub)]) @ prune_dirs ex ds"

subsection \<open>What per-module mode writes\<close>

text \<open>What per-module mode appends for one file found in a subdirectory.\<close>

fun module_entry :: "entry \<Rightarrow> string" where
  "module_entry (rel, file, Text content) =
     (if eligible file then relpath (rel @ [file]) @ nl @ nl @ content @ nl @ ''---'' @ nl else [])"
| "module_entry (rel, file, _) = []"

text \<open>The destination file of a visited subdirectory, as the script computes it.\<close>

definition module_key :: "string list \<Rightarrow> string" where
  "module_key rel = hd (split_sep (relpath rel)) @ ''.txt''"

text \<open>The text that a list of visits of subdirectories appends to the destination file \<open>k\<close>.\<close>

definition appended :: "string \<Rightarrow> visit list \<Rightarrow> string" where
  "appended k vs =
     concat (map (\<lambda>v. if module_key (fst (snd v)) = k
                        then concat (map module_entry (visit_files v)) else []) vs)"

text \<open>
  A destination entry after it was opened for append (or not) and the text \<open>s\<close> was
  appended to it.
\<close>

definition extend :: "dnode option \<Rightarrow> bool \<Rightarrow> string \<Rightarrow> dnode option" where
  "extend x opened s =
     (case x of
        None \<Rightarrow> if opened then Some (Regular s) else None
      | Some (Regular old) \<Rightarrow> Some (Regular (old @ s))
      | Some (Unwritable e) \<Rightarrow> x)"

text \<open>The destination entry \<open>k\<close> cannot be opened for writing.\<close>

definition blocked :: "ddir \<Rightarrow> string \<Rightarrow> bool" where
  "blocked d k = (case d k of Some (Unwritable e) \<Rightarrow> True | _ \<Rightarrow> False)"

text \<open>
  The destination directory when the loop starts: an absent directory has just been
  created, empty.
\<close>

definition initial_dir :: "ddir option \<Rightarrow> ddir" where
  "initial_dir dest_dir = (case dest_dir of None \<Rightarrow> Map.empty | Some d \<Rightarrow> d)"

text \<open>The names of the subdirectories of the source root that are not excluded.\<close>

definition top_dirs :: "string list \<Rightarrow> tree \<Rightarrow> string set" where
  "top_dirs ex t = fst ` set (dirs t) - set ex"

text \<open>The content of the destination file \<open>k\<close> before the run; empty when there is none.\<close>

definition old_content :: "ddir \<Rightarrow> string \<Rightarrow> string" where
  "old_content d k = (case d k of Some (Regular s) \<Rightarrow> s | _ \<Rightarrow> [])"

subsection \<open>Diagnostics\<close>



text \<open>A file of the listing is identified by its directory and its name.\<close>

definition entry_key :: "entry \<Rightarrow> string list \<times> string" where
  "entry_key e = (fst e, fst (snd e))"

section \<open>Examples\<close>

text \<open>
  The scenario of the specification: \<^verbatim>\<open>root/a.py\<close>, \<^verbatim>\<open>root/sub/b.py\<close> and
  \<^verbatim>\<open>root/target/c.py\<close>; and a tree with two files that cannot be read.
\<close>

definition scenario_tree :: tree where
  "scenario_tree =
     Tree [(''a.py'', Text ''x=1'')]
       [(''sub'', Tree [(''b.py'', Text ''y=2'')] []),
        (''target'', Tree [(''c.py'', Text ''z=3'')] [])]"

definition broken_tree :: tree where
  "broken_tree =
     Tree [(''a.py'', Text ''x=1''), (''bad.py'', DecodeError), (''notes.md'', OtherError ''denied'')]
       [(''sub'', Tree [(''b.py'', Text ''y=2'')] [])]"

text \<open>Two trees in which two eligible files have the same base name.\<close>

definition clash_tree :: tree where
  "clash_tree = Tree [(''a.py'', Text ''x=1'')] [(''sub'', Tree [(''a.py'', Text ''y=2'')] [])]"

definition twin_tree :: tree where
  "twin_tree =
     Tree []
       [(''x'', Tree [(''m.py'', Text ''one'')] []),
        (''y'', Tree [(''m.py'', Text ''two'')] [])]"

text \<open>The scenario's tree with other files, and a subdirectory, under \<^verbatim>\<open>target\<close>.\<close>

definition scenario_tree_changed :: tree where
  "scenario_tree_changed =
     Tree [(''a.py'', Text ''x=1'')]
       [(''sub'', Tree [(''b.py'', Text ''y=2'')] []),
        (''target'', Tree [(''c.py'', Text ''changed''), (''d.py'', DecodeError)]
            [(''deep'', Tree [(''e.py'', Text ''w=4'')] [])])]"

text \<open>
  A tree with a nested subdirectory, a subdirectory without eligible files, an ineligible
  file under the root and an excluded directory.
\<close>

definition nested_tree :: tree where
  "nested_tree =
     Tree [(''a.py'', Text ''x=1''), (''notes.txt'', Text ''skip me'')]
       [(''sub'', Tree [(''b.py'', Text ''y=2'')]
                    [(''deep'', Tree [(''c.md'', Text ''z=3'')] [])]),
        (''empty'', Tree [(''pic.png'', DecodeError)] []),
        (''target'', Tree [(''t.py'', Text ''no'')] [])]"


text \<open>A destination directory in which \<^verbatim>\<open>a.py.txt\<close> is a directory.\<close>

definition blocked_file_dest :: ddir where
  "blocked_file_dest = [''a.py.txt'' \<mapsto> Unwritable ''Is a directory'']"

section \<open>Closed forms of the loops\<close>

lemma walk_files:
  "concat (map visit_files (walk ex root rel t)) = tree_files ex rel t"
  "concat (map visit_files (walk_dirs ex root rel ds)) = forest_files ex rel ds"
  by (induction ex root rel t and ex root rel ds rule: walk_walk_dirs.induct)
     (simp_all add: visit_files_def)

lemma single_steps_dest:
  "dest (foldl (single_file_step root) st fs)
     = dest st @ concat (map (\<lambda>(f, r). single_entry (rel, f, r)) fs)"
proof (induction fs arbitrary: st)
  case Nil
  show ?case by simp
next
  case (Cons x fs)
  obtain f r where x: "x = (f, r)" by (cases x)
  show ?case unfolding x
    by (cases r) (simp_all add: Cons.IH Let_def)
qed

lemma single_visits_dest:
  "dest (foldl single_visit st vs)
     = dest st @ concat (map single_entry (concat (map visit_files vs)))"
proof (induction vs arbitrary: st)
  case Nil
  show ?case by simp
next
  case (Cons v vs)
  obtain root rel fs where v: "v = (root, rel, fs)" by (cases v)
  show ?case unfolding v
    by (simp add: Cons.IH single_steps_dest [of root _ fs rel] visit_files_def comp_def
        case_prod_unfold)
qed

lemma single_run_dest:
  "dest (foldl single_visit st (walk ex root rel t))
     = dest st @ concat (map single_entry (tree_files ex rel t))"
  by (simp add: single_visits_dest walk_files)

lemma eligible_simps:
  "eligible ''a.py''" "eligible ''b.py''" "eligible ''c.py''" "eligible ''bad.py''"
  "eligible ''notes.md''"
  by (simp_all add: eligible_def extensions_def endswith_def)

lemma twenty_dashes: "replicate 20 (CHR ''-'') = ''--------------------''"
  by (simp add: eval_nat_numeral)

lemma overwrite_Nil [simp]: "overwrite x [] = x"
  by (simp add: overwrite_def split: option.splits dnode.splits)

lemma overwrite_append: "overwrite (overwrite x ws1) ws2 = overwrite x (ws1 @ ws2)"
  by (simp add: overwrite_def split: option.splits dnode.splits)

lemma writes_append: "writes k (L1 @ L2) = writes k L1 @ writes k L2"
  by (simp add: writes_def)

lemma per_file_step_dest:
  "dest (per_file_step root st (f, r)) k = overwrite (dest st k) (written k (rel, f, r))"
  by (cases r)
     (auto simp: Let_def write_file_def overwrite_def split: option.splits dnode.splits)

lemma per_file_steps_dest:
  "dest (foldl (per_file_step root) st fs) k
     = overwrite (dest st k) (writes k (map (\<lambda>(f, r). (rel, f, r)) fs))"
proof (induction fs arbitrary: st)
  case Nil
  show ?case by (simp add: writes_def)
next
  case (Cons x fs)
  obtain f r where x: "x = (f, r)" by (cases x)
  have "dest (foldl (per_file_step root) (per_file_step root st (f, r)) fs) k
        = overwrite (overwrite (dest st k) (written k (rel, f, r)))
            (writes k (map (\<lambda>(f, r). (rel, f, r)) fs))"
    by (simp only: Cons.IH per_file_step_dest [of root st f r k rel])
  then show ?case unfolding x
    by (simp add: overwrite_append writes_def)
qed

lemma per_file_visits_dest:
  "dest (foldl per_file_visit st vs) k
     = overwrite (dest st k) (writes k (concat (map visit_files vs)))"
proof (induction vs arbitrary: st)
  case Nil
  show ?case by (simp add: writes_def)
next
  case (Cons v vs)
  obtain root rel fs where v: "v = (root, rel, fs)" by (cases v)
  show ?case unfolding v
    by (simp add: Cons.IH per_file_steps_dest [of root _ fs _ rel] visit_files_def
        overwrite_append writes_append)
qed

lemma per_file_run_dest:
  "dest (foldl per_file_visit st (walk ex root rel t)) k
     = overwrite (dest st k) (writes k (tree_files ex rel t))"
  by (simp add: per_file_visits_dest walk_files)

lemma ensure_dir_ok:
  "dest_dir = None \<longrightarrow> mk_ok \<Longrightarrow>
   ensure_dir dest_dir mk_ok = Inr (case dest_dir of None \<Rightarrow> Map.empty | Some d \<Rightarrow> d)"
  by (cases dest_dir) (simp_all add: ensure_dir_def)

lemma per_file_result:
  assumes "dest_dir = None \<longrightarrow> mk_ok"
  shows "\<exists>st. save_files_as_text_per_file src_dir dest_dir mk_ok ex t = Inr st
           \<and> (\<forall>k. dest st k = overwrite ((case dest_dir of None \<Rightarrow> Map.empty | Some d \<Rightarrow> d) k)
                                  (writes k (tree_files ex [] t)))"
  by (simp add: save_files_as_text_per_file_def ensure_dir_ok [OF assms] per_file_run_dest)

lemma written_after:
  assumes "\<forall>(q, g, r) \<in> set L. g = file \<longrightarrow> \<not> readable r"
  shows "writes (file @ ''.txt'') L = []"
proof -
  have "written (file @ ''.txt'') x = []" if "x \<in> set L" for x
  proof -
    obtain q g r where x: "x = (q, g, r)" by (cases x)
    with assms that have "g = file \<longrightarrow> \<not> readable r" by auto
    then show ?thesis unfolding x by (cases r) auto
  qed
  then show ?thesis by (simp add: writes_def)
qed

lemma overwrite_twice: "overwrite (overwrite x ws) ws = overwrite x ws"
  by (simp add: overwrite_def split: option.splits dnode.splits)

lemma walk_prune:
  "walk ex root rel t = walk ex root rel (prune ex t)"
  "walk_dirs ex root rel ds = walk_dirs ex root rel (prune_dirs ex ds)"
  by (induction ex root rel t and ex root rel ds rule: walk_walk_dirs.induct) simp_all

lemma walk_rel_not_excluded:
  "set rel \<inter> set ex = {} \<Longrightarrow> \<forall>v \<in> set (walk ex root rel t). set (fst (snd v)) \<inter> set ex = {}"
  "set rel \<inter> set ex = {} \<Longrightarrow> \<forall>v \<in> set (walk_dirs ex root rel ds). set (fst (snd v)) \<inter> set ex = {}"
  by (induction ex root rel t and ex root rel ds rule: walk_walk_dirs.induct) auto

lemma walk_same:
  assumes "prune ex t = prune ex t'"
  shows "walk ex root rel t = walk ex root rel t'"
  using walk_prune(1) [of ex root rel t] walk_prune(1) [of ex root rel t'] assms by simp

lemma visit_files_Pair: "visit_files (root, rel, fs) = map (Pair rel) fs"
  by (simp add: visit_files_def)

lemma module_file_step_dest:
  "dest st key = Some (Regular old) \<Longrightarrow>
   dest (module_file_step root rel key st (f, r))
     = (dest st)(key \<mapsto> Regular (old @ module_entry (rel, f, r)))"
  by (cases r) (auto simp: Let_def append_to_def)

lemma module_file_steps_dest:
  "dest st key = Some (Regular old) \<Longrightarrow>
   dest (foldl (module_file_step root rel key) st fs)
     = (dest st)(key \<mapsto> Regular (old @ concat (map module_entry (map (Pair rel) fs))))"
proof (induction fs arbitrary: st old)
  case Nil
  then show ?case by auto
next
  case (Cons x fs)
  obtain f r where x: "x = (f, r)" by (cases x)
  let ?e = "module_entry (rel, f, r)"
  let ?st = "module_file_step root rel key st (f, r)"
  have d: "dest ?st = (dest st)(key \<mapsto> Regular (old @ ?e))"
    by (rule module_file_step_dest [OF Cons.prems])
  then have "dest ?st key = Some (Regular (old @ ?e))" by simp
  from Cons.IH [OF this]
  have "dest (foldl (module_file_step root rel key) ?st fs)
        = (dest st)(key \<mapsto> Regular ((old @ ?e) @ concat (map module_entry (map (Pair rel) fs))))"
    by (simp only: d fun_upd_upd)
  then show ?case
    unfolding x by (simp del: module_file_step.simps module_entry.simps)
qed


lemma module_visit_ok:
  assumes "root \<noteq> src_dir" and "\<not> blocked (dest st) (module_key rel)"
  shows "\<exists>st'. module_visit src_dir st (root, rel, fs) = Inr st'
           \<and> (\<forall>k. dest st' k = extend (dest st k) (module_key rel = k)
                  (if module_key rel = k then concat (map module_entry (visit_files (root, rel, fs))) else []))"
proof -
  let ?key = "module_key rel"
  let ?es = "concat (map module_entry (map (Pair rel) fs))"
  obtain d old where o: "open_append (dest st) ?key = Inr d" and dk: "d ?key = Some (Regular old)"
    and old: "extend (dest st ?key) True ?es = Some (Regular (old @ ?es))"
    and other: "\<forall>k. k \<noteq> ?key \<longrightarrow> d k = dest st k"
  proof (cases "dest st ?key")
    case None
    then show ?thesis
      using that [of "(dest st)(?key \<mapsto> Regular [])" "[]"]
      by (simp add: open_append_def extend_def)
  next
    case (Some n)
    with assms(2) obtain s where n: "n = Regular s"
      by (cases n) (simp_all add: blocked_def)
    show ?thesis
      using that [of "dest st" s] Some n by (simp add: open_append_def extend_def)
  qed
  let ?st = "foldl (module_file_step root rel ?key) (st\<lparr>dest := d\<rparr>) fs"
  have run: "module_visit src_dir st (root, rel, fs) = Inr ?st"
    using assms(1) o by (simp add: Let_def module_key_def)
  have "dest (st\<lparr>dest := d\<rparr>) ?key = Some (Regular old)"
    using dk by simp
  from module_file_steps_dest [OF this, of root rel fs]
  have fin: "dest ?st = d(?key \<mapsto> Regular (old @ ?es))"
    by simp
  have "dest ?st k = extend (dest st k) (?key = k) (if ?key = k then ?es else [])" for k
  proof (cases "?key = k")
    case True
    then show ?thesis using fin old by auto
  next
    case False
    then have "dest ?st k = dest st k" using fin other by auto
    moreover have "extend (dest st k) False [] = dest st k"
      by (simp add: extend_def split: option.splits dnode.splits)
    ultimately show ?thesis using False by simp
  qed
  with run show ?thesis by (simp add: visit_files_Pair)
qed

lemma extend_extend:
  "(\<not> o1 \<longrightarrow> s1 = []) \<Longrightarrow> extend (extend x o1 s1) o2 s2 = extend x (o1 \<or> o2) (s1 @ s2)"
  by (auto simp: extend_def split: option.splits dnode.splits)

lemma blocked_extend:
  "d' k = extend (d k) b s \<Longrightarrow> blocked d' k = blocked d k"
  by (auto simp: blocked_def extend_def split: option.splits dnode.splits if_splits)

lemma appended_Cons:
  "appended k (v # vs)
     = (if module_key (fst (snd v)) = k then concat (map module_entry (visit_files v)) else [])
       @ appended k vs"
  by (simp add: appended_def)

lemma module_visits_ok:
  assumes "\<forall>v \<in> set vs. fst v \<noteq> src_dir"
    and "\<forall>v \<in> set vs. \<not> blocked (dest st) (module_key (fst (snd v)))"
  shows "\<exists>st'. module_visits src_dir st vs = Inr st'
           \<and> (\<forall>k. dest st' k = extend (dest st k)
                  (k \<in> (\<lambda>v. module_key (fst (snd v))) ` set vs) (appended k vs))"
  using assms
proof (induction vs arbitrary: st)
  case Nil
  show ?case by (simp add: appended_def extend_def split: option.splits dnode.splits)
next
  case (Cons v vs)
  obtain root rel fs where v: "v = (root, rel, fs)" by (cases v)
  let ?e = "\<lambda>k. if module_key rel = k then concat (map module_entry (visit_files v)) else []"
  have nr: "root \<noteq> src_dir" and nb: "\<not> blocked (dest st) (module_key rel)"
    using Cons.prems by (simp_all add: v)
  obtain st1 where s1: "module_visit src_dir st v = Inr st1"
    and d1: "\<forall>k. dest st1 k = extend (dest st k) (module_key rel = k) (?e k)"
    using module_visit_ok [OF nr nb, of fs] unfolding v by blast
  have b1: "blocked (dest st1) k = blocked (dest st) k" for k
    using d1 blocked_extend by blast
  have "\<forall>v \<in> set vs. fst v \<noteq> src_dir"
    and "\<forall>v \<in> set vs. \<not> blocked (dest st1) (module_key (fst (snd v)))"
    using Cons.prems b1 by simp_all
  from Cons.IH [OF this] obtain st' where s': "module_visits src_dir st1 vs = Inr st'"
    and d': "\<forall>k. dest st' k = extend (dest st1 k)
                  (k \<in> (\<lambda>v. module_key (fst (snd v))) ` set vs) (appended k vs)"
    by blast
  have "dest st' k = extend (dest st k)
          (k \<in> (\<lambda>v. module_key (fst (snd v))) ` set (v # vs)) (appended k (v # vs))" for k
  proof -
    have "dest st' k = extend (extend (dest st k) (module_key rel = k) (?e k))
            (k \<in> (\<lambda>v. module_key (fst (snd v))) ` set vs) (appended k vs)"
      using d' d1 by simp
    also have "\<dots> = extend (dest st k)
            (module_key rel = k \<or> k \<in> (\<lambda>v. module_key (fst (snd v))) ` set vs)
            (?e k @ appended k vs)"
      by (rule extend_extend) simp
    also have "\<dots> = extend (dest st k)
          (k \<in> (\<lambda>v. module_key (fst (snd v))) ` set (v # vs)) (appended k (v # vs))"
      by (auto simp: appended_Cons v intro!: arg_cong2 [of _ _ _ _ "extend (dest st k)"])
    finally show ?thesis .
  qed
  with s1 s' show ?case by simp
qed


lemma split_sep_plain: "CHR ''/'' \<notin> set s \<Longrightarrow> split_sep s = [s]"
  by (induction s) auto

lemma split_sep_first: "CHR ''/'' \<notin> set s \<Longrightarrow> split_sep (s @ CHR ''/'' # r) = s # split_sep r"
  by (induction s) auto

lemma module_key_Cons: "CHR ''/'' \<notin> set d \<Longrightarrow> module_key (d # rest) = d @ ''.txt''"
  by (cases rest) (simp_all add: module_key_def split_sep_plain split_sep_first)

lemma path_join_longer: "valid_name d \<Longrightarrow> length root < length (path_join root d)"
  by (cases d) (auto simp: valid_name_def path_join_def)

lemma walk_root_longer:
  "wf_tree t \<Longrightarrow> \<forall>v \<in> set (walk ex root rel t). length root \<le> length (fst v)"
  "wf_forest ds \<Longrightarrow> list_all valid_name (map fst ds) \<Longrightarrow>
     \<forall>v \<in> set (walk_dirs ex root rel ds). length root < length (fst v)"
proof (induction ex root rel t and ex root rel ds rule: walk_walk_dirs.induct)
  case (1 exclude_dirs root rel fs ds)
  then show ?case by (auto simp: less_imp_le)
next
  case (2 exclude_dirs root rel)
  show ?case by simp
next
  case (3 exclude_dirs root rel d sub ds)
  have l: "length root < length (path_join root d)"
    using 3 by (simp add: path_join_longer)
  show ?case
  proof (cases "d \<in> set exclude_dirs")
    case True
    with 3 show ?thesis by simp
  next
    case False
    with 3 have "\<forall>v \<in> set (walk exclude_dirs (path_join root d) (rel @ [d]) sub).
        length (path_join root d) \<le> length (fst v)" by simp
    with l have "\<forall>v \<in> set (walk exclude_dirs (path_join root d) (rel @ [d]) sub).
        length root < length (fst v)" by fastforce
    with 3 False show ?thesis by auto
  qed
qed

lemma walk_dirs_not_root:
  assumes "wf_tree t"
  shows "\<forall>v \<in> set (walk_dirs ex src_dir rel (dirs t)). fst v \<noteq> src_dir"
proof -
  obtain fs ds where t: "t = Tree fs ds" by (cases t)
  with assms have "wf_forest ds" "list_all valid_name (map fst ds)" by simp_all
  from walk_root_longer(2) [OF this, of ex src_dir rel] show ?thesis
    by (auto simp: t)
qed

lemma walk_hd_rel:
  "rel \<noteq> [] \<Longrightarrow> \<forall>v \<in> set (walk ex root rel t). fst (snd v) \<noteq> [] \<and> hd (fst (snd v)) = hd rel"
  "rel \<noteq> [] \<Longrightarrow> \<forall>v \<in> set (walk_dirs ex root rel ds). fst (snd v) \<noteq> [] \<and> hd (fst (snd v)) = hd rel"
  by (induction ex root rel t and ex root rel ds rule: walk_walk_dirs.induct) auto

lemma walk_module_key:
  assumes "CHR ''/'' \<notin> set d"
  shows "\<forall>v \<in> set (walk ex root [d] t). module_key (fst (snd v)) = d @ ''.txt''"
proof
  fix v assume "v \<in> set (walk ex root [d] t)"
  with walk_hd_rel(1) [of "[d]" ex root t]
  have "fst (snd v) \<noteq> []" "hd (fst (snd v)) = d" by auto
  then obtain rest where "fst (snd v) = d # rest" by (cases "fst (snd v)") auto
  with assms show "module_key (fst (snd v)) = d @ ''.txt''"
    by (simp add: module_key_Cons)
qed

lemma appended_append: "appended k (vs @ ws) = appended k vs @ appended k ws"
  by (simp add: appended_def)

lemma appended_same_key:
  "\<forall>v \<in> set vs. module_key (fst (snd v)) = k' \<Longrightarrow>
   appended k vs = (if k' = k then concat (map module_entry (concat (map visit_files vs))) else [])"
  by (induction vs) (auto simp: appended_def)

lemma appended_subtree:
  assumes "CHR ''/'' \<notin> set d"
  shows "appended k (walk ex root [d] t)
           = (if d @ ''.txt'' = k then concat (map module_entry (tree_files ex [d] t)) else [])"
proof -
  have "\<forall>v \<in> set (walk ex root [d] t). module_key (fst (snd v)) = d @ ''.txt''"
    by (rule walk_module_key [OF assms])
  from appended_same_key [OF this] show ?thesis
    by (simp add: walk_files)
qed

lemma appended_top:
  "list_all valid_name (map fst ds) \<Longrightarrow>
   appended (d @ ''.txt'') (walk_dirs ex root [] ds)
     = concat (map module_entry (forest_files ex [] (filter (\<lambda>x. fst x = d) ds)))"
proof (induction ds)
  case Nil
  show ?case by (simp add: appended_def)
next
  case (Cons x ds)
  obtain d' sub where x: "x = (d', sub)" by (cases x)
  with Cons.prems have v: "CHR ''/'' \<notin> set d'" by (simp add: valid_name_def)
  have e: "appended (d @ ''.txt'') [] = []" by (simp add: appended_def)
  have "appended (d @ ''.txt'') (walk_dirs ex root [] (x # ds))
        = (if d' \<in> set ex then [] else appended (d @ ''.txt'') (walk ex (path_join root d') [d'] sub))
          @ appended (d @ ''.txt'') (walk_dirs ex root [] ds)"
    by (simp add: x appended_append e)
  also have "\<dots> = (if d' \<in> set ex then []
                    else if d' = d then concat (map module_entry (tree_files ex [d'] sub)) else [])
          @ concat (map module_entry (forest_files ex [] (filter (\<lambda>x. fst x = d) ds)))"
    using Cons by (simp add: appended_subtree [OF v])
  also have "\<dots> = concat (map module_entry (forest_files ex [] (filter (\<lambda>x. fst x = d) (x # ds))))"
    by (simp add: x)
  finally show ?case .
qed

lemma keys_top:
  "list_all valid_name (map fst ds) \<Longrightarrow>
   (\<lambda>v. module_key (fst (snd v))) ` set (walk_dirs ex root [] ds)
     = (\<lambda>d. d @ ''.txt'') ` (fst ` set ds - set ex)"
proof (induction ds)
  case Nil
  show ?case by simp
next
  case (Cons x ds)
  obtain d' sub where x: "x = (d', sub)" by (cases x)
  with Cons.prems have v: "CHR ''/'' \<notin> set d'" by (simp add: valid_name_def)
  obtain fs' ds' where sub: "sub = Tree fs' ds'" by (cases sub)
  have "(\<lambda>v. module_key (fst (snd v))) ` set (walk ex (path_join root d') [d'] sub) = {d' @ ''.txt''}"
    using walk_module_key [OF v, of ex "path_join root d'" sub]
    by (auto simp: sub module_key_Cons [OF v] image_iff)
  with Cons show ?case
    by (auto simp: x image_Un)
qed

lemma blocked_overwrite:
  "d' k = overwrite (d k) ws \<Longrightarrow> blocked d' k = blocked d k"
  by (auto simp: blocked_def overwrite_def split: option.splits dnode.splits if_splits)

lemma module_visits_root:
  "module_visits src_dir st (walk ex src_dir [] t)
     = module_visits src_dir (foldl (per_file_step src_dir) st (files t))
         (walk_dirs ex src_dir [] (dirs t))"
  by (cases t) simp

lemma root_step_dest:
  "dest (foldl (per_file_step src_dir) st (files t)) k
     = overwrite (dest st k) (writes k (map (Pair []) (files t)))"
  using per_file_steps_dest [of src_dir st "files t" k "[]"]
  by (simp add: case_prod_unfold)

lemma by_modules_result:
  assumes wf: "wf_tree t" and ok: "dest_dir = None \<longrightarrow> mk_ok"
    and nb: "\<forall>d \<in> top_dirs ex t. \<not> blocked (initial_dir dest_dir) (d @ ''.txt'')"
  shows "\<exists>st. save_files_as_text_by_modules src_dir dest_dir mk_ok ex t = Inr st
           \<and> (\<forall>k. dest st k =
                  extend (overwrite (initial_dir dest_dir k) (writes k (map (Pair []) (files t))))
                    (k \<in> (\<lambda>d. d @ ''.txt'') ` top_dirs ex t)
                    (appended k (walk_dirs ex src_dir [] (dirs t))))"
proof -
  let ?d0 = "initial_dir dest_dir"
  let ?st0 = "\<lparr>dest = ?d0, diag = []\<rparr>"
  let ?st1 = "foldl (per_file_step src_dir) ?st0 (files t)"
  let ?vs = "walk_dirs ex src_dir [] (dirs t)"
  have names: "list_all valid_name (map fst (dirs t))"
    using wf by (cases t) simp
  have keys: "(\<lambda>v. module_key (fst (snd v))) ` set ?vs = (\<lambda>d. d @ ''.txt'') ` top_dirs ex t"
    unfolding top_dirs_def by (rule keys_top [OF names])
  have run: "save_files_as_text_by_modules src_dir dest_dir mk_ok ex t = module_visits src_dir ?st1 ?vs"
    using ok by (simp add: save_files_as_text_by_modules_def ensure_dir_ok initial_dir_def
        module_visits_root)
  have d1: "dest ?st1 k = overwrite (?d0 k) (writes k (map (Pair []) (files t)))" for k
    using root_step_dest [of src_dir ?st0 t k] by simp
  have b1: "blocked (dest ?st1) k = blocked ?d0 k" for k
    using d1 by (rule blocked_overwrite)
  have "\<forall>v \<in> set ?vs. \<not> blocked (dest ?st1) (module_key (fst (snd v)))"
  proof
    fix v assume "v \<in> set ?vs"
    then have "module_key (fst (snd v)) \<in> (\<lambda>d. d @ ''.txt'') ` top_dirs ex t"
      using keys by blast
    with nb show "\<not> blocked (dest ?st1) (module_key (fst (snd v)))"
      by (auto simp: b1)
  qed
  from module_visits_ok [OF walk_dirs_not_root [OF wf] this]
  obtain st where "module_visits src_dir ?st1 ?vs = Inr st"
    and "\<forall>k. dest st k = extend (dest ?st1 k)
            (k \<in> (\<lambda>v. module_key (fst (snd v))) ` set ?vs) (appended k ?vs)"
    by blast
  with run keys d1 show ?thesis by simp
qed


lemma filter_unique:
  "distinct (map fst ds) \<Longrightarrow> (d, sub) \<in> set ds \<Longrightarrow> filter (\<lambda>x. fst x = d) ds = [(d, sub)]"
proof (induction ds)
  case Nil
  then show ?case by simp
next
  case (Cons x ds)
  show ?case
  proof (cases "x = (d, sub)")
    case True
    with Cons.prems have "d \<notin> fst ` set ds" by simp
    then have "filter (\<lambda>x. fst x = d) ds = []"
      by (auto simp: filter_empty_conv)
    with True show ?thesis by simp
  next
    case False
    with Cons.prems have in_ds: "(d, sub) \<in> set ds" by simp
    then have "d \<in> fst ` set ds" by force
    with Cons.prems have "fst x \<noteq> d" by auto
    with Cons.IH in_ds Cons.prems show ?thesis by simp
  qed
qed

lemma writes_other_names:
  "f \<notin> fst ` set fs \<Longrightarrow> writes (f @ ''.txt'') (map (Pair rel) fs) = []"
proof (induction fs)
  case Nil
  show ?case by (simp add: writes_def)
next
  case (Cons x fs)
  obtain g r where x: "x = (g, r)" by (cases x)
  with Cons.prems have "g \<noteq> f" by auto
  then have "written (f @ ''.txt'') (rel, g, r) = []" by (cases r) auto
  with Cons show ?case by (simp add: writes_def x)
qed

lemma writes_unique:
  "distinct (map fst fs) \<Longrightarrow> (f, Text c) \<in> set fs \<Longrightarrow> eligible f \<Longrightarrow>
   writes (f @ ''.txt'') (map (Pair rel) fs) = [c]"
proof (induction fs)
  case Nil
  then show ?case by simp
next
  case (Cons x fs)
  obtain g r where x: "x = (g, r)" by (cases x)
  show ?case
  proof (cases "x = (f, Text c)")
    case True
    with Cons.prems have "f \<notin> fst ` set fs" by simp
    from writes_other_names [OF this] True Cons.prems(3) show ?thesis
      by (simp add: writes_def)
  next
    case False
    with Cons.prems have in_fs: "(f, Text c) \<in> set fs" by simp
    then have "f \<in> fst ` set fs" by force
    with Cons.prems x have "g \<noteq> f" by auto
    then have "written (f @ ''.txt'') (rel, g, r) = []" by (cases r) auto
    moreover have "writes (f @ ''.txt'') (map (Pair rel) fs) = [c]"
      using Cons.IH in_fs Cons.prems by simp
    ultimately show ?thesis by (simp add: writes_def x)
  qed
qed

lemma extend_not_blocked:
  "\<not> blocked d k \<Longrightarrow> extend (d k) True s = Some (Regular (old_content d k @ s))"
  by (auto simp: blocked_def extend_def old_content_def split: option.splits dnode.splits)

lemma by_modules_files:
  assumes wf: "wf_tree t" and ok: "dest_dir = None \<longrightarrow> mk_ok"
    and nb: "\<forall>d \<in> top_dirs ex t. \<not> blocked (initial_dir dest_dir) (d @ ''.txt'')"
  shows "\<exists>st. save_files_as_text_by_modules src_dir dest_dir mk_ok ex t = Inr st
           \<and> (\<forall>d sub. (d, sub) \<in> set (dirs t) \<longrightarrow> d \<notin> set ex \<longrightarrow>
                 dest st (d @ ''.txt'')
                   = Some (Regular (old_content (initial_dir dest_dir) (d @ ''.txt'')
                                    @ concat (map module_entry (tree_files ex [d] sub)))))
           \<and> (\<forall>f c. (f, Text c) \<in> set (files t) \<longrightarrow> eligible f \<longrightarrow>
                 \<not> blocked (initial_dir dest_dir) (f @ ''.txt'') \<longrightarrow>
                 dest st (f @ ''.txt'') = Some (Regular c))"
proof -
  let ?d0 = "initial_dir dest_dir"
  let ?vs = "walk_dirs ex src_dir [] (dirs t)"
  obtain fs ds where t: "t = Tree fs ds" by (cases t)
  have dist: "distinct (map fst fs @ map fst ds)" and names: "list_all valid_name (map fst ds)"
    using wf by (simp_all add: t)
  obtain st where run: "save_files_as_text_by_modules src_dir dest_dir mk_ok ex t = Inr st"
    and d: "\<And>k. dest st k =
                  extend (overwrite (?d0 k) (writes k (map (Pair []) (files t))))
                    (k \<in> (\<lambda>d. d @ ''.txt'') ` top_dirs ex t) (appended k ?vs)"
    using by_modules_result [OF wf ok nb, of src_dir] by blast
  have a: "dest st (d @ ''.txt'')
             = Some (Regular (old_content ?d0 (d @ ''.txt'')
                              @ concat (map module_entry (tree_files ex [d] sub))))"
    if "(d, sub) \<in> set (dirs t)" and "d \<notin> set ex" for d sub
  proof -
    have in_ds: "(d, sub) \<in> set ds" using that by (simp add: t)
    then have dtop: "d \<in> top_dirs ex t" using that by (force simp: top_dirs_def t)
    have "d \<in> fst ` set ds" using in_ds by force
    with dist have "d \<notin> fst ` set fs" by auto
    then have w: "writes (d @ ''.txt'') (map (Pair []) (files t)) = []"
      by (simp add: t writes_other_names)
    have "filter (\<lambda>x. fst x = d) ds = [(d, sub)]"
      using dist in_ds by (simp add: filter_unique)
    then have ap: "appended (d @ ''.txt'') ?vs = concat (map module_entry (tree_files ex [d] sub))"
      using appended_top [OF names, of d ex src_dir] that by (simp add: t)
    have "dest st (d @ ''.txt'') = extend (?d0 (d @ ''.txt'')) True
            (concat (map module_entry (tree_files ex [d] sub)))"
      using d [of "d @ ''.txt''"] w ap dtop by simp
    with nb dtop show ?thesis by (simp add: extend_not_blocked)
  qed
  have b: "dest st (f @ ''.txt'') = Some (Regular c)"
    if "(f, Text c) \<in> set (files t)" and "eligible f" and "\<not> blocked ?d0 (f @ ''.txt'')" for f c
  proof -
    have in_fs: "(f, Text c) \<in> set fs" using that by (simp add: t)
    then have "f \<in> fst ` set fs" by force
    with dist have "f \<notin> fst ` set ds" by auto
    then have "filter (\<lambda>x. fst x = f) ds = []" by (auto simp: filter_empty_conv)
    then have ap: "appended (f @ ''.txt'') ?vs = []"
      using appended_top [OF names, of f ex src_dir] by (simp add: t)
    have w: "writes (f @ ''.txt'') (map (Pair []) (files t)) = [c]"
      using dist in_fs that(2) by (simp add: t writes_unique)
    have "overwrite (?d0 (f @ ''.txt'')) [c] = Some (Regular c)"
      using that(3) by (auto simp: overwrite_def blocked_def split: option.splits dnode.splits)
    then show ?thesis
      using d [of "f @ ''.txt''"] w ap by (simp add: extend_def)
  qed
  from run a b show ?thesis by blast
qed

lemma eligible_more: "eligible ''c.md''" "\<not> eligible ''notes.txt''" "\<not> eligible ''pic.png''"
  "eligible ''t.py''"
  by (simp_all add: eligible_def extensions_def endswith_def)

lemma nested_wf: "wf_tree nested_tree"
  by (simp add: nested_tree_def valid_name_def)

lemma walk_dirs_hd_top:
  "\<forall>v \<in> set (walk_dirs ex root [] ds).
     fst (snd v) \<noteq> [] \<and> hd (fst (snd v)) \<in> fst ` set ds - set ex"
proof (induction ds)
  case Nil
  show ?case by simp
next
  case (Cons x ds)
  obtain d sub where x: "x = (d, sub)" by (cases x)
  have "\<forall>v \<in> set (walk ex (path_join root d) [d] sub). fst (snd v) \<noteq> [] \<and> hd (fst (snd v)) = d"
    using walk_hd_rel(1) [of "[d]" ex "path_join root d" sub] by simp
  with Cons show ?case by (auto simp: x)
qed

lemma top_dirs_iff: "d \<in> top_dirs ex t \<longleftrightarrow> (\<exists>sub. (d, sub) \<in> set (dirs t)) \<and> d \<notin> set ex"
  by (force simp: top_dirs_def)










lemma tree_files_iff:
  "(q, f, r) \<in> set (tree_files ex rel t)
     \<longleftrightarrow> (\<exists>p. q = rel @ p \<and> file_at p t f r \<and> set p \<inter> set ex = {})"
  "(q, f, r) \<in> set (forest_files ex rel ds)
     \<longleftrightarrow> (\<exists>d sub p. (d, sub) \<in> set ds \<and> d \<notin> set ex \<and> q = rel @ d # p
                     \<and> file_at p sub f r \<and> set p \<inter> set ex = {})"
proof (induction ex rel t and ex rel ds arbitrary: q and q rule: tree_files_forest_files.induct)
  case (1 ex rel fs ds)
  have "(\<exists>p. q = rel @ p \<and> file_at p (Tree fs ds) f r \<and> set p \<inter> set ex = {})
        \<longleftrightarrow> (q = rel \<and> (f, r) \<in> set fs)
            \<or> (\<exists>d sub p. (d, sub) \<in> set ds \<and> d \<notin> set ex \<and> q = rel @ d # p
                     \<and> file_at p sub f r \<and> set p \<inter> set ex = {})" (is "?L \<longleftrightarrow> ?A \<or> ?B")
  proof
    assume ?L
    then obtain p where p: "q = rel @ p" "file_at p (Tree fs ds) f r" "set p \<inter> set ex = {}"
      by blast
    show "?A \<or> ?B"
    proof (cases p)
      case Nil
      with p show ?thesis by simp
    next
      case (Cons d p')
      with p obtain sub where "(d, sub) \<in> set ds" "file_at p' sub f r" by auto
      with p Cons have ?B by auto
      then show ?thesis ..
    qed
  next
    assume "?A \<or> ?B"
    then show ?L
    proof
      assume ?A
      then have "q = rel @ [] \<and> file_at [] (Tree fs ds) f r \<and> set [] \<inter> set ex = {}" by simp
      then show ?L by blast
    next
      assume ?B
      then obtain d sub p where "(d, sub) \<in> set ds" "d \<notin> set ex" "q = rel @ d # p"
        "file_at p sub f r" "set p \<inter> set ex = {}" by blast
      then have "q = rel @ (d # p) \<and> file_at (d # p) (Tree fs ds) f r \<and> set (d # p) \<inter> set ex = {}"
        by auto
      then show ?L by blast
    qed
  qed
  with 1 show ?case by auto
next
  case (2 ex rel)
  show ?case by simp
next
  case (3 ex rel d sub ds)
  show ?case
  proof (cases "d \<in> set ex")
    case True
    with 3 show ?thesis by auto
  next
    case False
    with 3 have a: "(q, f, r) \<in> set (tree_files ex (rel @ [d]) sub)
        \<longleftrightarrow> (\<exists>p. q = rel @ d # p \<and> file_at p sub f r \<and> set p \<inter> set ex = {})"
      by simp
    from 3 have b: "(q, f, r) \<in> set (forest_files ex rel ds)
     \<longleftrightarrow> (\<exists>d sub p. (d, sub) \<in> set ds \<and> d \<notin> set ex \<and> q = rel @ d # p
                     \<and> file_at p sub f r \<and> set p \<inter> set ex = {})" by simp
    show ?thesis
      using False by (simp add: a b) blast
  qed
qed

lemma tree_files_path:
  "e \<in> set (tree_files ex rel t) \<Longrightarrow> \<exists>p. fst e = rel @ p"
  "e \<in> set (forest_files ex rel ds) \<Longrightarrow> \<exists>d p. d \<in> fst ` set ds \<and> fst e = rel @ d # p"
proof -
  obtain q f r where e: "e = (q, f, r)" by (cases e)
  show "e \<in> set (tree_files ex rel t) \<Longrightarrow> \<exists>p. fst e = rel @ p"
    unfolding e by (auto simp: tree_files_iff(1))
  show "e \<in> set (forest_files ex rel ds) \<Longrightarrow> \<exists>d p. d \<in> fst ` set ds \<and> fst e = rel @ d # p"
    unfolding e by (force simp: tree_files_iff(2))
qed

lemma wf_forest_member: "wf_forest ds \<Longrightarrow> (d, sub) \<in> set ds \<Longrightarrow> wf_tree sub"
  by (induction ds) auto

lemma tree_files_distinct:
  "wf_tree t \<Longrightarrow> distinct (map entry_key (tree_files ex rel t))"
  "wf_forest ds \<Longrightarrow> distinct (map fst ds) \<Longrightarrow> distinct (map entry_key (forest_files ex rel ds))"
proof (induction ex rel t and ex rel ds rule: tree_files_forest_files.induct)
  case (1 ex rel fs ds)
  then have d: "distinct (map fst fs)" "distinct (map fst ds)" and "wf_forest ds" by simp_all
  with 1 have f: "distinct (map entry_key (forest_files ex rel ds))" by simp
  have "map entry_key (map (\<lambda>(f, r). (rel, f, r)) fs) = map (Pair rel) (map fst fs)"
    by (simp add: entry_key_def case_prod_unfold comp_def)
  then have a: "distinct (map entry_key (map (\<lambda>(f, r). (rel, f, r)) fs))"
    using d(1) by (simp add: distinct_map inj_on_def del: map_map)
  have "entry_key x \<noteq> entry_key y"
    if "x \<in> set (map (\<lambda>(f, r). (rel, f, r)) fs)" "y \<in> set (forest_files ex rel ds)" for x y
  proof -
    from that(1) have "fst x = rel" by auto
    moreover from tree_files_path(2) [OF that(2)] obtain d p where "fst y = rel @ d # p" by blast
    ultimately show ?thesis by (simp add: entry_key_def)
  qed
  then have "set (map entry_key (map (\<lambda>(f, r). (rel, f, r)) fs))
             \<inter> set (map entry_key (forest_files ex rel ds)) = {}"
    by (simp only: set_map) blast
  with a f show ?case by (simp only: tree_files.simps map_append distinct_append, simp?)
next
  case (2 ex rel)
  show ?case by simp
next
  case (3 ex rel d sub ds)
  then have rest: "distinct (map entry_key (forest_files ex rel ds))" by simp
  show ?case
  proof (cases "d \<in> set ex")
    case True
    with rest show ?thesis by simp
  next
    case False
    with 3 have a: "distinct (map entry_key (tree_files ex (rel @ [d]) sub))" by simp
    have "entry_key x \<noteq> entry_key y"
      if "x \<in> set (tree_files ex (rel @ [d]) sub)" "y \<in> set (forest_files ex rel ds)" for x y
    proof -
      from tree_files_path(1) [OF that(1)] obtain p where x: "fst x = rel @ d # p" by auto
      from tree_files_path(2) [OF that(2)] obtain d' p' where
        y: "d' \<in> fst ` set ds" "fst y = rel @ d' # p'" by blast
      from 3(4) y(1) have "d \<noteq> d'" by auto
      with x y show ?thesis by (simp add: entry_key_def)
    qed
    then have "set (map entry_key (tree_files ex (rel @ [d]) sub))
               \<inter> set (map entry_key (forest_files ex rel ds)) = {}"
      by (simp only: set_map) blast
    moreover have "forest_files ex rel ((d, sub) # ds)
                   = tree_files ex (rel @ [d]) sub @ forest_files ex rel ds"
      using False by simp
    ultimately show ?thesis
      using a rest by (simp only: map_append distinct_append, simp?)
  qed
qed

lemma distinct_keys_count:
  assumes "distinct (map k xs)" and "x \<in> set xs"
  shows "count_list xs x = 1"
  using assms
proof (induction xs)
  case Nil
  then show ?case by simp
next
  case (Cons y xs)
  show ?case
  proof (cases "y = x")
    case True
    with Cons.prems have "x \<notin> set xs" by (auto simp: image_iff)
    with True show ?thesis by simp
  next
    case False
    with Cons show ?thesis by simp
  qed
qed

lemma writes_only_one:
  assumes dist: "distinct (map entry_key L)" and x: "(p, f, Text c) \<in> set L" and el: "eligible f"
    and uniq: "\<forall>(q, g, r) \<in> set L. g = f \<longrightarrow> eligible g \<longrightarrow> readable r \<longrightarrow> q = p"
  shows "writes (f @ ''.txt'') L = [c]"
proof -
  have other: "written (f @ ''.txt'') y = []" if "y \<in> set L" "y \<noteq> (p, f, Text c)" for y
  proof -
    obtain q g r where y: "y = (q, g, r)" by (cases y)
    show ?thesis
    proof (cases "g = f \<and> readable r")
      case True
      with uniq that(1) el have "q = p" by (auto simp: y)
      with True have "entry_key y = entry_key (p, f, Text c)" by (simp add: y entry_key_def)
      with dist x that(1) have "y = (p, f, Text c)"
        by (meson distinct_map inj_onD)
      with that(2) show ?thesis by simp
    next
      case False
      then show ?thesis unfolding y by (cases r) auto
    qed
  qed
  from x obtain L1 L2 where L: "L = L1 @ (p, f, Text c) # L2"
    by (auto dest: split_list)
  from dist have dl: "distinct L" by (simp add: distinct_map)
  then have "(p, f, Text c) \<notin> set L1" "(p, f, Text c) \<notin> set L2" by (auto simp: L)
  then have "\<forall>y \<in> set L1. written (f @ ''.txt'') y = []" "\<forall>y \<in> set L2. written (f @ ''.txt'') y = []"
    using other by (auto simp: L)
  then have w: "concat (map (written (f @ ''.txt'')) L1) = []"
    "concat (map (written (f @ ''.txt'')) L2) = []"
    by simp_all
  show ?thesis by (simp add: writes_def L w el)
qed

section \<open>The claims\<close>

text \<open>
  C1, as amended. Take a well-formed tree and a file of it outside the excluded
  directories, with an eligible name, whose read returns the text \<open>c\<close>. The listing of
  the traversal holds the file exactly once. In single-file mode, when the destination
  stream can be opened, the stream is the concatenation of the entries of that listing, so
  the file's entry, with its content, stands in it once. In per-file mode, when the
  destination directory exists or can be created and the file's own destination entry,
  base name plus \<^verbatim>\<open>.txt\<close>, can be opened for writing, that destination file holds
  exactly \<open>c\<close>, provided no other eligible readable file outside the excluded
  directories has the same base name; the destination directory is flat, and files that
  share a base name replace one another. In per-module mode, when the destination
  directory exists or can be created and the destination files of the top-level
  subdirectories can be opened for append: a file directly under the source root is its
  own destination file, provided that entry can be opened for writing, and a file below
  the top-level subdirectory \<open>d\<close> has its entry exactly once in what the run appends to
  \<^verbatim>\<open>d.txt\<close>.
\<close>

theorem eligible_file_appears_once:
  assumes wf: "wf_tree t"
    and at: "file_at p t f (Text c)"
    and outside: "set p \<inter> set exclude_dirs = {}"
    and el: "eligible f"
  shows "count_list (tree_files exclude_dirs [] t) (p, f, Text c) = 1
     \<and> ((\<forall>e. dest_file \<noteq> Some (Unwritable e)) \<longrightarrow>
          (\<exists>st. save_files_as_text_single src_dir dest_file exclude_dirs t = Inr st
             \<and> dest st = concat (map single_entry (tree_files exclude_dirs [] t))))
     \<and> ((dest_dir = None \<longrightarrow> mk_ok) \<longrightarrow>
          \<not> blocked (initial_dir dest_dir) (f @ ''.txt'') \<longrightarrow>
          (\<forall>(q, g, r) \<in> set (tree_files exclude_dirs [] t). g = f \<longrightarrow> readable r \<longrightarrow> q = p) \<longrightarrow>
          (\<exists>st. save_files_as_text_per_file src_dir dest_dir mk_ok exclude_dirs t = Inr st
             \<and> dest st (f @ ''.txt'') = Some (Regular c)))
     \<and> ((dest_dir = None \<longrightarrow> mk_ok) \<longrightarrow>
          (\<forall>d \<in> top_dirs exclude_dirs t. \<not> blocked (initial_dir dest_dir) (d @ ''.txt'')) \<longrightarrow>
          (\<exists>st. save_files_as_text_by_modules src_dir dest_dir mk_ok exclude_dirs t = Inr st
             \<and> (case p of
                  [] \<Rightarrow> \<not> blocked (initial_dir dest_dir) (f @ ''.txt'') \<longrightarrow>
                          dest st (f @ ''.txt'') = Some (Regular c)
                | d # p' \<Rightarrow>
                    (\<exists>sub. (d, sub) \<in> set (dirs t)
                       \<and> count_list (tree_files exclude_dirs [d] sub) (p, f, Text c) = 1
                       \<and> dest st (d @ ''.txt'')
                           = Some (Regular (old_content (initial_dir dest_dir) (d @ ''.txt'')
                               @ concat (map module_entry (tree_files exclude_dirs [d] sub))))))))"
proof (intro conjI impI)
  let ?L = "tree_files exclude_dirs [] t"
  have mem: "(p, f, Text c) \<in> set ?L"
    using at outside by (simp add: tree_files_iff(1))
  have dist: "distinct (map entry_key ?L)"
    by (rule tree_files_distinct(1) [OF wf])
  show "count_list ?L (p, f, Text c) = 1"
    by (rule distinct_keys_count [OF dist mem])
  {
    assume w: "\<forall>e. dest_file \<noteq> Some (Unwritable e)"
    show "\<exists>st. save_files_as_text_single src_dir dest_file exclude_dirs t = Inr st
             \<and> dest st = concat (map single_entry ?L)"
    proof (cases dest_file)
      case None
      then show ?thesis by (simp add: save_files_as_text_single_def single_run_dest)
    next
      case (Some n)
      with w show ?thesis
        by (cases n) (simp_all add: save_files_as_text_single_def single_run_dest)
    qed
  }
  {
    assume ok: "dest_dir = None \<longrightarrow> mk_ok"
      and nb: "\<not> blocked (initial_dir dest_dir) (f @ ''.txt'')"
      and uniq: "\<forall>(q, g, r) \<in> set ?L. g = f \<longrightarrow> readable r \<longrightarrow> q = p"
    from uniq have "\<forall>(q, g, r) \<in> set ?L. g = f \<longrightarrow> eligible g \<longrightarrow> readable r \<longrightarrow> q = p"
      by blast
    from writes_only_one [OF dist mem el this]
    have w: "writes (f @ ''.txt'') ?L = [c]" .
    obtain st where run: "save_files_as_text_per_file src_dir dest_dir mk_ok exclude_dirs t = Inr st"
      and d: "dest st (f @ ''.txt'')
                = overwrite ((case dest_dir of None \<Rightarrow> Map.empty | Some d \<Rightarrow> d) (f @ ''.txt''))
                    (writes (f @ ''.txt'') ?L)"
      using per_file_result [OF ok, of src_dir exclude_dirs t] by blast
    have "overwrite (initial_dir dest_dir (f @ ''.txt'')) [c] = Some (Regular c)"
      using nb by (auto simp: overwrite_def blocked_def split: option.splits dnode.splits)
    with run d w show "\<exists>st. save_files_as_text_per_file src_dir dest_dir mk_ok exclude_dirs t = Inr st
             \<and> dest st (f @ ''.txt'') = Some (Regular c)"
      by (simp add: initial_dir_def)
  }
  {
    assume ok: "dest_dir = None \<longrightarrow> mk_ok"
      and nb: "\<forall>d \<in> top_dirs exclude_dirs t. \<not> blocked (initial_dir dest_dir) (d @ ''.txt'')"
    obtain st where run: "save_files_as_text_by_modules src_dir dest_dir mk_ok exclude_dirs t = Inr st"
      and m: "\<And>d sub. (d, sub) \<in> set (dirs t) \<Longrightarrow> d \<notin> set exclude_dirs \<Longrightarrow>
                 dest st (d @ ''.txt'')
                   = Some (Regular (old_content (initial_dir dest_dir) (d @ ''.txt'')
                        @ concat (map module_entry (tree_files exclude_dirs [d] sub))))"
      and r: "\<And>f c. (f, Text c) \<in> set (files t) \<Longrightarrow> eligible f \<Longrightarrow>
                 \<not> blocked (initial_dir dest_dir) (f @ ''.txt'') \<Longrightarrow>
                 dest st (f @ ''.txt'') = Some (Regular c)"
      using by_modules_files [OF wf ok nb, of src_dir] by blast
    have "case p of
            [] \<Rightarrow> \<not> blocked (initial_dir dest_dir) (f @ ''.txt'') \<longrightarrow>
                    dest st (f @ ''.txt'') = Some (Regular c)
          | d # p' \<Rightarrow>
              (\<exists>sub. (d, sub) \<in> set (dirs t)
                 \<and> count_list (tree_files exclude_dirs [d] sub) (p, f, Text c) = 1
                 \<and> dest st (d @ ''.txt'')
                     = Some (Regular (old_content (initial_dir dest_dir) (d @ ''.txt'')
                         @ concat (map module_entry (tree_files exclude_dirs [d] sub)))))"
    proof (cases p)
      case Nil
      with at have "(f, Text c) \<in> set (files t)" by simp
      from r [OF this el] Nil show ?thesis by simp
    next
      case (Cons d p')
      with at obtain sub where sub: "(d, sub) \<in> set (dirs t)" and at': "file_at p' sub f (Text c)"
        by auto
      from outside Cons have nex: "d \<notin> set exclude_dirs" and out': "set p' \<inter> set exclude_dirs = {}"
        by auto
      have "wf_forest (dirs t)" using wf by (cases t) simp
      from wf_forest_member [OF this sub] have wfs: "wf_tree sub" .
      have "(p, f, Text c) \<in> set (tree_files exclude_dirs [d] sub)"
        using at' out' Cons by (simp add: tree_files_iff(1))
      from distinct_keys_count [OF tree_files_distinct(1) [OF wfs] this]
      have "count_list (tree_files exclude_dirs [d] sub) (p, f, Text c) = 1" .
      with sub m [OF sub nex] Cons show ?thesis by auto
    qed
    with run show "\<exists>st. save_files_as_text_by_modules src_dir dest_dir mk_ok exclude_dirs t = Inr st
             \<and> (case p of
                  [] \<Rightarrow> \<not> blocked (initial_dir dest_dir) (f @ ''.txt'') \<longrightarrow>
                          dest st (f @ ''.txt'') = Some (Regular c)
                | d # p' \<Rightarrow>
                    (\<exists>sub. (d, sub) \<in> set (dirs t)
                       \<and> count_list (tree_files exclude_dirs [d] sub) (p, f, Text c) = 1
                       \<and> dest st (d @ ''.txt'')
                           = Some (Regular (old_content (initial_dir dest_dir) (d @ ''.txt'')
                               @ concat (map module_entry (tree_files exclude_dirs [d] sub))))))"
      by blast
  }
qed

theorem eligible_file_appears_once_witness:
  "wf_tree nested_tree
   \<and> file_at [''sub'', ''deep''] nested_tree ''c.md'' (Text ''z=3'')
   \<and> eligible ''c.md''
   \<and> count_list (tree_files [''target''] [] nested_tree) ([''sub'', ''deep''], ''c.md'', Text ''z=3'') = 1
   \<and> (\<exists>st. save_files_as_text_single ''root'' None [''target''] nested_tree = Inr st
         \<and> dest st = ''a.py.txt'' @ nl @ nl @ ''x=1'' @ nl @ ''--------------------'' @ nl
                    @ ''b.py.txt'' @ nl @ nl @ ''y=2'' @ nl @ ''--------------------'' @ nl
                    @ ''c.md.txt'' @ nl @ nl @ ''z=3'' @ nl @ ''--------------------'' @ nl)
   \<and> (\<exists>st. save_files_as_text_per_file ''root'' None True [''target''] nested_tree = Inr st
         \<and> dest st ''c.md.txt'' = Some (Regular ''z=3''))
   \<and> (\<exists>st. save_files_as_text_by_modules ''root'' None True [''target''] nested_tree = Inr st
         \<and> dest st ''sub.txt''
             = Some (Regular (''sub/b.py'' @ nl @ nl @ ''y=2'' @ nl @ ''---'' @ nl
                              @ ''sub/deep/c.md'' @ nl @ nl @ ''z=3'' @ nl @ ''---'' @ nl)))"
proof -
  have at: "file_at [''sub'', ''deep''] nested_tree ''c.md'' (Text ''z=3'')"
    by (simp add: nested_tree_def)
  have out: "set [''sub'', ''deep''] \<inter> set [''target''] = {}" by simp
  have el: "eligible ''c.md''" by (rule eligible_more)
  note th = eligible_file_appears_once [OF nested_wf at out el, of None "''root''" None True]
  have L: "tree_files [''target''] [] nested_tree
           = [([], ''a.py'', Text ''x=1''), ([], ''notes.txt'', Text ''skip me''),
              ([''sub''], ''b.py'', Text ''y=2''), ([''sub'', ''deep''], ''c.md'', Text ''z=3''),
              ([''empty''], ''pic.png'', DecodeError)]"
    by (simp add: nested_tree_def)
  have nb: "\<not> blocked (initial_dir None) k" for k
    by (simp add: blocked_def initial_dir_def)
  from th have "count_list (tree_files [''target''] [] nested_tree)
                  ([''sub'', ''deep''], ''c.md'', Text ''z=3'') = 1"
    by blast
  moreover from th have "\<exists>st. save_files_as_text_single ''root'' None [''target''] nested_tree = Inr st
         \<and> dest st = ''a.py.txt'' @ nl @ nl @ ''x=1'' @ nl @ ''--------------------'' @ nl
                    @ ''b.py.txt'' @ nl @ nl @ ''y=2'' @ nl @ ''--------------------'' @ nl
                    @ ''c.md.txt'' @ nl @ nl @ ''z=3'' @ nl @ ''--------------------'' @ nl"
    by (simp add: L eligible_simps eligible_more twenty_dashes)
  moreover from th have "\<exists>st. save_files_as_text_per_file ''root'' None True [''target''] nested_tree = Inr st
         \<and> dest st ''c.md.txt'' = Some (Regular ''z=3'')"
    by (simp add: L nb)
  moreover have "\<exists>st. save_files_as_text_by_modules ''root'' None True [''target''] nested_tree = Inr st
         \<and> dest st ''sub.txt''
             = Some (Regular (''sub/b.py'' @ nl @ nl @ ''y=2'' @ nl @ ''---'' @ nl
                              @ ''sub/deep/c.md'' @ nl @ nl @ ''z=3'' @ nl @ ''---'' @ nl))"
  proof -
    from th nb obtain st sub where
      run: "save_files_as_text_by_modules ''root'' None True [''target''] nested_tree = Inr st"
      and sub: "(''sub'', sub) \<in> set (dirs nested_tree)"
      and d: "dest st (''sub'' @ ''.txt'')
               = Some (Regular (old_content (initial_dir None) (''sub'' @ ''.txt'')
                   @ concat (map module_entry (tree_files [''target''] [''sub''] sub))))"
      by auto
    from sub have "sub = Tree [(''b.py'', Text ''y=2'')] [(''deep'', Tree [(''c.md'', Text ''z=3'')] [])]"
      by (simp add: nested_tree_def)
    with d have "dest st ''sub.txt''
             = Some (Regular (''sub/b.py'' @ nl @ nl @ ''y=2'' @ nl @ ''---'' @ nl
                              @ ''sub/deep/c.md'' @ nl @ nl @ ''z=3'' @ nl @ ''---'' @ nl))"
      by (simp add: old_content_def initial_dir_def eligible_simps eligible_more)
    with run show ?thesis by blast
  qed
  ultimately show ?thesis using nested_wf at el by blast
qed

text \<open>
  The claim as stated fails in three ways. In per-file mode, \<^verbatim>\<open>root/a.py\<close> and
  \<^verbatim>\<open>root/sub/a.py\<close> share the base name: the destination ends with the single file
  \<^verbatim>\<open>a.py.txt\<close> holding \<^verbatim>\<open>y=2\<close>, and the content \<^verbatim>\<open>x=1\<close> of the eligible file
  \<^verbatim>\<open>root/a.py\<close> is nowhere. An eligible file that cannot be decoded,
  \<^verbatim>\<open>root/bad.py\<close>, has no entry in the output of single-file mode. And in per-file
  mode, when \<^verbatim>\<open>a.py.txt\<close> in the destination is a directory, the run is not aborted:
  \<^verbatim>\<open>root/a.py\<close> is skipped with a diagnostic, \<^verbatim>\<open>root/sub/b.py\<close> is written, and
  the content of \<^verbatim>\<open>root/a.py\<close> is nowhere in the destination.
\<close>

theorem eligible_file_appears_once_counterexample:
  "file_at [] clash_tree ''a.py'' (Text ''x=1'') \<and> eligible ''a.py''
   \<and> set [] \<inter> set [''target''] = ({} :: string set)
   \<and> save_files_as_text_per_file ''root'' None True [''target''] clash_tree
       = Inr \<lparr>dest = [''a.py.txt'' \<mapsto> Regular ''y=2''], diag = []\<rparr>
   \<and> file_at [] broken_tree ''bad.py'' DecodeError \<and> eligible ''bad.py''
   \<and> save_files_as_text_single ''root'' None [''target''] broken_tree
       = Inr \<lparr>dest = ''a.py.txt'' @ nl @ nl @ ''x=1'' @ nl @ ''--------------------'' @ nl
                       @ ''b.py.txt'' @ nl @ nl @ ''y=2'' @ nl @ ''--------------------'' @ nl,
              diag = [''Skipping binary or incompatible file: root/bad.py'',
                      ''Error processing file root/notes.md: denied'']\<rparr>
   \<and> file_at [] scenario_tree ''a.py'' (Text ''x=1'')
   \<and> save_files_as_text_per_file ''root'' (Some blocked_file_dest) True [''target'']
         scenario_tree
       = Inr \<lparr>dest = blocked_file_dest(''b.py.txt'' \<mapsto> Regular ''y=2''),
              diag = [''Error processing file root/a.py: Is a directory'']\<rparr>"
  by (simp add: clash_tree_def broken_tree_def scenario_tree_def blocked_file_dest_def
      eligible_simps save_files_as_text_per_file_def save_files_as_text_single_def
      ensure_dir_def write_file_def path_join_def Let_def twenty_dashes)

text \<open>
  C2. In every mode the traversal visits no directory that lies in or below a directory
  with an excluded name, and what the run produces (destination and diagnostics) does not
  depend on anything beneath such a directory: two trees that are equal once the excluded
  directories are pruned give the same result.
\<close>

theorem excluded_directories_are_pruned:
  "(\<forall>(root, rel, fs) \<in> set (walk exclude_dirs src_dir [] t). set rel \<inter> set exclude_dirs = {})
   \<and> (prune exclude_dirs t = prune exclude_dirs t' \<longrightarrow>
        save_files_as_text_single src_dir dest_file exclude_dirs t
          = save_files_as_text_single src_dir dest_file exclude_dirs t'
        \<and> save_files_as_text_per_file src_dir dest_dir mk_ok exclude_dirs t
          = save_files_as_text_per_file src_dir dest_dir mk_ok exclude_dirs t'
        \<and> save_files_as_text_by_modules src_dir dest_dir mk_ok exclude_dirs t
          = save_files_as_text_by_modules src_dir dest_dir mk_ok exclude_dirs t')"
proof (intro conjI impI)
  show "\<forall>(root, rel, fs) \<in> set (walk exclude_dirs src_dir [] t). set rel \<inter> set exclude_dirs = {}"
    using walk_rel_not_excluded(1) [of "[]" exclude_dirs src_dir t] by fastforce
next
  assume "prune exclude_dirs t = prune exclude_dirs t'"
  then have w: "walk exclude_dirs src_dir [] t = walk exclude_dirs src_dir [] t'"
    by (rule walk_same)
  show "save_files_as_text_single src_dir dest_file exclude_dirs t
          = save_files_as_text_single src_dir dest_file exclude_dirs t'"
    unfolding save_files_as_text_single_def w by (rule refl)
  show "save_files_as_text_per_file src_dir dest_dir mk_ok exclude_dirs t
          = save_files_as_text_per_file src_dir dest_dir mk_ok exclude_dirs t'"
    unfolding save_files_as_text_per_file_def w by (rule refl)
  show "save_files_as_text_by_modules src_dir dest_dir mk_ok exclude_dirs t
          = save_files_as_text_by_modules src_dir dest_dir mk_ok exclude_dirs t'"
    unfolding save_files_as_text_by_modules_def w by (rule refl)
qed

theorem excluded_directories_are_pruned_witness:
  "map (fst \<circ> snd) (walk [''target''] ''root'' [] scenario_tree_changed) = [[], [''sub'']]
   \<and> prune [''target''] scenario_tree = prune [''target''] scenario_tree_changed
   \<and> save_files_as_text_single ''root'' None [''target''] scenario_tree
        = save_files_as_text_single ''root'' None [''target''] scenario_tree_changed
   \<and> save_files_as_text_per_file ''root'' None True [''target''] scenario_tree
        = save_files_as_text_per_file ''root'' None True [''target''] scenario_tree_changed
   \<and> save_files_as_text_by_modules ''root'' None True [''target''] scenario_tree
        = save_files_as_text_by_modules ''root'' None True [''target''] scenario_tree_changed"
proof -
  have p: "prune [''target''] scenario_tree = prune [''target''] scenario_tree_changed"
    by (simp add: scenario_tree_def scenario_tree_changed_def)
  have v: "map (fst \<circ> snd) (walk [''target''] ''root'' [] scenario_tree_changed) = [[], [''sub'']]"
    by (simp add: scenario_tree_changed_def)
  from p v excluded_directories_are_pruned
    [of "[''target'']" "''root''" scenario_tree scenario_tree_changed None None True]
  show ?thesis by blast
qed

text \<open>
  C3, as amended. In per-file mode, unless creating the destination directory fails, the
  run ends normally; and for an eligible file outside the excluded directories whose read
  returns the text \<open>c\<close>, the destination file named base name plus \<^verbatim>\<open>.txt\<close> holds
  exactly \<open>c\<close>, provided that no eligible readable file of the same base name comes later
  in the traversal (the destination directory is flat: a later one replaces the content)
  and that the destination entry can be opened for writing.
\<close>

theorem per_file_round_trip:
  assumes ok: "dest_dir = None \<longrightarrow> mk_ok"
    and split: "tree_files exclude_dirs [] t = before @ (p, file, Text c) # after"
    and el: "eligible file"
    and later: "\<forall>(q, g, r) \<in> set after. g = file \<longrightarrow> \<not> readable r"
    and writable: "\<forall>d e. dest_dir = Some d \<longrightarrow> d (file @ ''.txt'') \<noteq> Some (Unwritable e)"
  shows "\<exists>st. save_files_as_text_per_file src_dir dest_dir mk_ok exclude_dirs t = Inr st
           \<and> dest st (file @ ''.txt'') = Some (Regular c)"
proof -
  let ?k = "file @ ''.txt''"
  let ?d = "case dest_dir of None \<Rightarrow> Map.empty | Some d \<Rightarrow> d"
  obtain st where run: "save_files_as_text_per_file src_dir dest_dir mk_ok exclude_dirs t = Inr st"
    and d: "dest st ?k = overwrite (?d ?k) (writes ?k (tree_files exclude_dirs [] t))"
    using per_file_result [OF ok] by blast
  have w: "writes ?k (tree_files exclude_dirs [] t) = writes ?k before @ [c]"
  proof -
    have "writes ?k [(p, file, Text c)] = [c]"
      using el by (simp add: writes_def)
    then have "writes ?k ((p, file, Text c) # after) = [c]"
      using writes_append [of ?k "[(p, file, Text c)]" after] written_after [OF later] by simp
    then show ?thesis
      by (simp add: split writes_append)
  qed
  have "\<forall>e. ?d ?k \<noteq> Some (Unwritable e)"
    using writable by (cases dest_dir) simp_all
  then have "overwrite (?d ?k) (writes ?k before @ [c]) = Some (Regular c)"
    by (simp add: overwrite_def split: option.splits dnode.splits)
  with run d w show ?thesis by simp
qed

theorem per_file_round_trip_witness:
  "tree_files [''target''] [] clash_tree = [([], ''a.py'', Text ''x=1'')] @ ([''sub''], ''a.py'', Text ''y=2'') # []
   \<and> eligible ''a.py''
   \<and> (\<exists>st. save_files_as_text_per_file ''root'' None True [''target''] clash_tree = Inr st
           \<and> dest st (''a.py'' @ ''.txt'') = Some (Regular ''y=2''))"
  using per_file_round_trip [of None True "[''target'']" clash_tree "[([], ''a.py'', Text ''x=1'')]"
      "[''sub'']" "''a.py''" "''y=2''" "[]" "''root''"]
  by (simp add: clash_tree_def eligible_simps)

text \<open>
  The claim as stated fails: \<^verbatim>\<open>root/x/m.py\<close> is eligible and reads as \<^verbatim>\<open>one\<close>,
  but after the run the only destination file, \<^verbatim>\<open>m.py.txt\<close>, holds \<^verbatim>\<open>two\<close>, the
  content of \<^verbatim>\<open>root/y/m.py\<close>.
\<close>

theorem per_file_round_trip_counterexample:
  "file_at [''x''] twin_tree ''m.py'' (Text ''one'') \<and> eligible ''m.py''
   \<and> save_files_as_text_per_file ''root'' None True [''target''] twin_tree
       = Inr \<lparr>dest = [''m.py.txt'' \<mapsto> Regular ''two''], diag = []\<rparr>"
  by (simp add: twin_tree_def eligible_def extensions_def endswith_def
      save_files_as_text_per_file_def ensure_dir_def write_file_def Let_def)

text \<open>
  C4. A second run of single-file mode or of per-file mode over the same tree leaves the
  destination as the first run left it: the single file is truncated when it is opened,
  and so is every file of the destination directory that the run writes.
\<close>

theorem rerun_gives_same_destination:
  "((\<forall>e. dest_file \<noteq> Some (Unwritable e)) \<longrightarrow>
      (\<exists>s1. save_files_as_text_single src_dir dest_file exclude_dirs t = Inr s1
         \<and> save_files_as_text_single src_dir (Some (Regular (dest s1))) exclude_dirs t = Inr s1))
   \<and> ((dest_dir = None \<longrightarrow> mk_ok) \<longrightarrow>
      (\<exists>p1 p2. save_files_as_text_per_file src_dir dest_dir mk_ok exclude_dirs t = Inr p1
         \<and> save_files_as_text_per_file src_dir (Some (dest p1)) mk_ok' exclude_dirs t = Inr p2
         \<and> dest p2 = dest p1))"
proof (intro conjI impI)
  assume w: "\<forall>e. dest_file \<noteq> Some (Unwritable e)"
  show "\<exists>s1. save_files_as_text_single src_dir dest_file exclude_dirs t = Inr s1
         \<and> save_files_as_text_single src_dir (Some (Regular (dest s1))) exclude_dirs t = Inr s1"
  proof (cases dest_file)
    case None
    then show ?thesis by (simp add: save_files_as_text_single_def)
  next
    case (Some n)
    with w show ?thesis by (cases n) (simp_all add: save_files_as_text_single_def)
  qed
next
  assume ok: "dest_dir = None \<longrightarrow> mk_ok"
  let ?d = "case dest_dir of None \<Rightarrow> Map.empty | Some d \<Rightarrow> d"
  obtain p1 where r1: "save_files_as_text_per_file src_dir dest_dir mk_ok exclude_dirs t = Inr p1"
    and d1: "\<forall>k. dest p1 k = overwrite (?d k) (writes k (tree_files exclude_dirs [] t))"
    using per_file_result [OF ok] by blast
  obtain p2 where r2: "save_files_as_text_per_file src_dir (Some (dest p1)) mk_ok' exclude_dirs t = Inr p2"
    and d2: "\<forall>k. dest p2 k = overwrite (dest p1 k) (writes k (tree_files exclude_dirs [] t))"
    using per_file_result [of "Some (dest p1)" mk_ok' src_dir exclude_dirs t] by auto
  have "dest p2 k = dest p1 k" for k
    using d1 d2 by (simp add: overwrite_twice)
  then have "dest p2 = dest p1" by (rule ext)
  with r1 r2 show "\<exists>p1 p2. save_files_as_text_per_file src_dir dest_dir mk_ok exclude_dirs t = Inr p1
         \<and> save_files_as_text_per_file src_dir (Some (dest p1)) mk_ok' exclude_dirs t = Inr p2
         \<and> dest p2 = dest p1"
    by blast
qed

theorem rerun_gives_same_destination_witness:
  "(\<exists>s1. save_files_as_text_single ''root'' None [''target''] scenario_tree = Inr s1
         \<and> save_files_as_text_single ''root'' (Some (Regular (dest s1))) [''target''] scenario_tree = Inr s1)
   \<and> (\<exists>p1 p2. save_files_as_text_per_file ''root'' None True [''target''] scenario_tree = Inr p1
         \<and> save_files_as_text_per_file ''root'' (Some (dest p1)) False [''target''] scenario_tree = Inr p2
         \<and> dest p2 = dest p1)"
  using rerun_gives_same_destination [of None "''root''" "[''target'']" scenario_tree None True False]
  by simp

text \<open>
  C5. Per-module mode is not idempotent. On a well-formed tree, when the destination
  directory exists or can be created and the destination files of the top-level
  subdirectories can be opened, a first run and a second run on the destination that the
  first one left both end normally, and for every
  top-level subdirectory \<open>d\<close> that is not excluded, \<^verbatim>\<open>d.txt\<close> holds after the first run
  its old content followed by the aggregated entries of \<open>d\<close>, and after the second run
  the old content followed by these entries twice.
\<close>

theorem per_module_rerun_duplicates:
  assumes wf: "wf_tree t" and ok: "dest_dir = None \<longrightarrow> mk_ok"
    and nb: "\<forall>d \<in> top_dirs exclude_dirs t. \<not> blocked (initial_dir dest_dir) (d @ ''.txt'')"
  shows "\<exists>st1 st2.
           save_files_as_text_by_modules src_dir dest_dir mk_ok exclude_dirs t = Inr st1
           \<and> save_files_as_text_by_modules src_dir (Some (dest st1)) mk_ok' exclude_dirs t = Inr st2
           \<and> (\<forall>(d, sub) \<in> set (dirs t). d \<notin> set exclude_dirs \<longrightarrow>
                 dest st1 (d @ ''.txt'')
                   = Some (Regular (old_content (initial_dir dest_dir) (d @ ''.txt'')
                        @ concat (map module_entry (tree_files exclude_dirs [d] sub))))
                 \<and> dest st2 (d @ ''.txt'')
                   = Some (Regular (old_content (initial_dir dest_dir) (d @ ''.txt'')
                        @ concat (map module_entry (tree_files exclude_dirs [d] sub))
                        @ concat (map module_entry (tree_files exclude_dirs [d] sub)))))"
proof -
  obtain st1 where run1: "save_files_as_text_by_modules src_dir dest_dir mk_ok exclude_dirs t = Inr st1"
    and m1: "\<And>d sub. (d, sub) \<in> set (dirs t) \<Longrightarrow> d \<notin> set exclude_dirs \<Longrightarrow>
                 dest st1 (d @ ''.txt'')
                   = Some (Regular (old_content (initial_dir dest_dir) (d @ ''.txt'')
                        @ concat (map module_entry (tree_files exclude_dirs [d] sub))))"
    using by_modules_files [OF wf ok nb, of src_dir] by blast
  have ok2: "Some (dest st1) = None \<longrightarrow> mk_ok'" by simp
  have nb2: "\<forall>d \<in> top_dirs exclude_dirs t. \<not> blocked (initial_dir (Some (dest st1))) (d @ ''.txt'')"
  proof
    fix d assume "d \<in> top_dirs exclude_dirs t"
    then obtain sub where "(d, sub) \<in> set (dirs t)" "d \<notin> set exclude_dirs"
      by (auto simp: top_dirs_iff)
    from m1 [OF this] show "\<not> blocked (initial_dir (Some (dest st1))) (d @ ''.txt'')"
      by (simp add: blocked_def initial_dir_def)
  qed
  obtain st2 where run2: "save_files_as_text_by_modules src_dir (Some (dest st1)) mk_ok' exclude_dirs t = Inr st2"
    and m2: "\<And>d sub. (d, sub) \<in> set (dirs t) \<Longrightarrow> d \<notin> set exclude_dirs \<Longrightarrow>
                 dest st2 (d @ ''.txt'')
                   = Some (Regular (old_content (initial_dir (Some (dest st1))) (d @ ''.txt'')
                        @ concat (map module_entry (tree_files exclude_dirs [d] sub))))"
    using by_modules_files [OF wf ok2 nb2, of src_dir] by blast
  have "dest st2 (d @ ''.txt'')
          = Some (Regular (old_content (initial_dir dest_dir) (d @ ''.txt'')
                        @ concat (map module_entry (tree_files exclude_dirs [d] sub))
                        @ concat (map module_entry (tree_files exclude_dirs [d] sub))))"
    if "(d, sub) \<in> set (dirs t)" "d \<notin> set exclude_dirs" for d sub
    using m1 [OF that] m2 [OF that] by (simp add: old_content_def initial_dir_def)
  with run1 run2 m1 show ?thesis by blast
qed

theorem per_module_rerun_duplicates_witness:
  "wf_tree scenario_tree
   \<and> (\<exists>st1 st2.
        save_files_as_text_by_modules ''root'' None True [''target''] scenario_tree = Inr st1
        \<and> save_files_as_text_by_modules ''root'' (Some (dest st1)) True [''target''] scenario_tree = Inr st2
        \<and> dest st1 ''sub.txt'' = Some (Regular (''sub/b.py'' @ nl @ nl @ ''y=2'' @ nl @ ''---'' @ nl))
        \<and> dest st2 ''sub.txt''
            = Some (Regular (''sub/b.py'' @ nl @ nl @ ''y=2'' @ nl @ ''---'' @ nl
                             @ ''sub/b.py'' @ nl @ nl @ ''y=2'' @ nl @ ''---'' @ nl)))"
proof -
  have wf: "wf_tree scenario_tree"
    by (simp add: scenario_tree_def valid_name_def)
  have nb: "\<forall>d \<in> top_dirs [''target''] scenario_tree. \<not> blocked (initial_dir None) (d @ ''.txt'')"
    by (simp add: blocked_def initial_dir_def)
  from per_module_rerun_duplicates [OF wf _ nb, of True "''root''" True]
  obtain st1 st2 where
    "save_files_as_text_by_modules ''root'' None True [''target''] scenario_tree = Inr st1"
    "save_files_as_text_by_modules ''root'' (Some (dest st1)) True [''target''] scenario_tree = Inr st2"
    and m: "\<forall>(d, sub) \<in> set (dirs scenario_tree). d \<notin> set [''target''] \<longrightarrow>
                 dest st1 (d @ ''.txt'')
                   = Some (Regular (old_content (initial_dir None) (d @ ''.txt'')
                        @ concat (map module_entry (tree_files [''target''] [d] sub))))
                 \<and> dest st2 (d @ ''.txt'')
                   = Some (Regular (old_content (initial_dir None) (d @ ''.txt'')
                        @ concat (map module_entry (tree_files [''target''] [d] sub))
                        @ concat (map module_entry (tree_files [''target''] [d] sub))))"
    by auto
  moreover from m have "dest st1 ''sub.txt'' = Some (Regular (''sub/b.py'' @ nl @ nl @ ''y=2'' @ nl @ ''---'' @ nl))
        \<and> dest st2 ''sub.txt''
            = Some (Regular (''sub/b.py'' @ nl @ nl @ ''y=2'' @ nl @ ''---'' @ nl
                             @ ''sub/b.py'' @ nl @ nl @ ''y=2'' @ nl @ ''---'' @ nl))"
    by (simp add: scenario_tree_def old_content_def initial_dir_def eligible_simps)
  ultimately show ?thesis using wf by blast
qed

text \<open>
  C6. Single-file mode opens the destination once, truncating it: unless that open fails,
  the run ends normally and the stream holds, whatever the file held before, one entry per
  eligible file that could be read, in traversal order: the base name followed by
  \<^verbatim>\<open>.txt\<close> and a line break, an empty line, the content, a line break, twenty dashes
  and a line break.
\<close>

theorem single_file_output_format:
  assumes "\<forall>e. dest_file \<noteq> Some (Unwritable e)"
  shows "\<exists>st. save_files_as_text_single src_dir dest_file exclude_dirs t = Inr st
           \<and> dest st = concat (map single_entry (tree_files exclude_dirs [] t))"
proof (cases dest_file)
  case None
  then show ?thesis by (simp add: save_files_as_text_single_def single_run_dest)
next
  case (Some n)
  with assms show ?thesis
    by (cases n) (simp_all add: save_files_as_text_single_def single_run_dest)
qed

theorem single_file_output_format_witness:
  "(\<forall>e. Some (Regular ''stale'') \<noteq> Some (Unwritable e))
   \<and> (\<exists>st. save_files_as_text_single ''root'' (Some (Regular ''stale'')) [''target'']
              scenario_tree = Inr st
        \<and> dest st = ''a.py.txt'' @ nl @ nl @ ''x=1'' @ nl @ ''--------------------'' @ nl
                   @ ''b.py.txt'' @ nl @ nl @ ''y=2'' @ nl @ ''--------------------'' @ nl)"
  using single_file_output_format
    [of "Some (Regular ''stale'')" "''root''" "[''target'']" scenario_tree]
  by (simp add: scenario_tree_def eligible_simps twenty_dashes)

text \<open>
  C7. Per-module mode, on a well-formed tree, when the destination directory exists or can
  be created and the destination files of the top-level subdirectories can be opened: the
  run ends normally. For every top-level subdirectory \<open>d\<close> that is not excluded, the file
  \<^verbatim>\<open>d.txt\<close> holds what it held before followed by one entry for every eligible readable
  file anywhere below \<open>d\<close>, in traversal order: the path relative to the source root, a
  line break, an empty line, the content, a line break, the line \<^verbatim>\<open>---\<close> and a line
  break. An eligible readable file directly under the source root is written as it is to
  its own file, base name plus \<^verbatim>\<open>.txt\<close>.
\<close>

theorem per_module_routing_and_format:
  assumes "wf_tree t" and "dest_dir = None \<longrightarrow> mk_ok"
    and "\<forall>d \<in> top_dirs exclude_dirs t. \<not> blocked (initial_dir dest_dir) (d @ ''.txt'')"
  shows "\<exists>st. save_files_as_text_by_modules src_dir dest_dir mk_ok exclude_dirs t = Inr st
           \<and> (\<forall>(d, sub) \<in> set (dirs t). d \<notin> set exclude_dirs \<longrightarrow>
                 dest st (d @ ''.txt'')
                   = Some (Regular (old_content (initial_dir dest_dir) (d @ ''.txt'')
                        @ concat (map module_entry (tree_files exclude_dirs [d] sub)))))
           \<and> (\<forall>(f, r) \<in> set (files t). \<forall>c. r = Text c \<longrightarrow> eligible f \<longrightarrow>
                 \<not> blocked (initial_dir dest_dir) (f @ ''.txt'') \<longrightarrow>
                 dest st (f @ ''.txt'') = Some (Regular c))"
  using by_modules_files [OF assms, of src_dir] by fastforce

theorem per_module_routing_and_format_witness:
  "wf_tree nested_tree
   \<and> top_dirs [''target''] nested_tree = {''sub'', ''empty''}
   \<and> (\<exists>st. save_files_as_text_by_modules ''root'' None True [''target''] nested_tree = Inr st
        \<and> dest st ''sub.txt''
            = Some (Regular (''sub/b.py'' @ nl @ nl @ ''y=2'' @ nl @ ''---'' @ nl
                             @ ''sub/deep/c.md'' @ nl @ nl @ ''z=3'' @ nl @ ''---'' @ nl))
        \<and> dest st ''a.py.txt'' = Some (Regular ''x=1''))"
proof -
  have top: "top_dirs [''target''] nested_tree = {''sub'', ''empty''}"
    by (auto simp: top_dirs_def nested_tree_def)
  have nb: "\<forall>d \<in> top_dirs [''target''] nested_tree. \<not> blocked (initial_dir None) (d @ ''.txt'')"
    by (simp add: blocked_def initial_dir_def)
  from per_module_routing_and_format [OF nested_wf _ nb, of True "''root''"]
  obtain st where run: "save_files_as_text_by_modules ''root'' None True [''target''] nested_tree = Inr st"
    and m: "\<forall>(d, sub) \<in> set (dirs nested_tree). d \<notin> set [''target''] \<longrightarrow>
                 dest st (d @ ''.txt'')
                   = Some (Regular (old_content (initial_dir None) (d @ ''.txt'')
                        @ concat (map module_entry (tree_files [''target''] [d] sub))))"
    and r: "\<forall>(f, r) \<in> set (files nested_tree). \<forall>c. r = Text c \<longrightarrow> eligible f \<longrightarrow>
                 \<not> blocked (initial_dir None) (f @ ''.txt'') \<longrightarrow>
                 dest st (f @ ''.txt'') = Some (Regular c)"
    by auto
  from m have "dest st ''sub.txt''
            = Some (Regular (''sub/b.py'' @ nl @ nl @ ''y=2'' @ nl @ ''---'' @ nl
                             @ ''sub/deep/c.md'' @ nl @ nl @ ''z=3'' @ nl @ ''---'' @ nl))"
    by (simp add: nested_tree_def old_content_def initial_dir_def eligible_simps eligible_more)
  moreover from r have "dest st ''a.py.txt'' = Some (Regular ''x=1'')"
    by (simp add: nested_tree_def blocked_def initial_dir_def eligible_simps)
  ultimately show ?thesis using run top nested_wf by blast
qed




text \<open>
  C9. In single-file mode a file whose read raises (a decode error or any other
  exception) leaves the destination stream as it was: no header, no content and no
  separator is written for it, and its entry in the output is empty.
\<close>

theorem single_file_failed_read_writes_nothing:
  assumes "\<not> readable r"
  shows "dest (single_file_step root st (file, r)) = dest st
         \<and> single_entry (rel, file, r) = []"
  using assms by (cases r) (simp_all add: Let_def)

theorem single_file_failed_read_writes_nothing_witness:
  "\<not> readable DecodeError
   \<and> dest (single_file_step ''root'' \<lparr>dest = ''before'', diag = []\<rparr> (''bad.py'', DecodeError))
       = ''before''
   \<and> single_entry ([], ''bad.py'', DecodeError) = []"
  using single_file_failed_read_writes_nothing
    [of DecodeError "''root''" "\<lparr>dest = ''before'', diag = []\<rparr>" "''bad.py''" "[]"]
  by simp

text \<open>
  C10. Per-module mode, on a well-formed tree, when the destination directory exists or
  can be created and the destination files of the top-level subdirectories can be opened:
  after the run, for every directory that the traversal visits other than the source root
  (also one without eligible files), the destination file named after
  the first name of its path relative to the source root, plus \<^verbatim>\<open>.txt\<close>, exists. For a
  top-level subdirectory with no eligible file anywhere below it, whose destination file
  did not exist, that file is created empty.
\<close>

theorem per_module_file_for_every_subdirectory:
  assumes "wf_tree t" and "dest_dir = None \<longrightarrow> mk_ok"
    and "\<forall>d \<in> top_dirs exclude_dirs t. \<not> blocked (initial_dir dest_dir) (d @ ''.txt'')"
  shows "\<exists>st. save_files_as_text_by_modules src_dir dest_dir mk_ok exclude_dirs t = Inr st
           \<and> (\<forall>(root, rel, fs) \<in> set (walk exclude_dirs src_dir [] t). rel \<noteq> [] \<longrightarrow>
                 (\<exists>s. dest st (hd rel @ ''.txt'') = Some (Regular s)))
           \<and> (\<forall>(d, sub) \<in> set (dirs t). d \<notin> set exclude_dirs \<longrightarrow>
                 initial_dir dest_dir (d @ ''.txt'') = None \<longrightarrow>
                 (\<forall>(p, f, r) \<in> set (tree_files exclude_dirs [d] sub). \<not> eligible f) \<longrightarrow>
                 dest st (d @ ''.txt'') = Some (Regular []))"
proof -
  obtain st where run: "save_files_as_text_by_modules src_dir dest_dir mk_ok exclude_dirs t = Inr st"
    and m: "\<And>d sub. (d, sub) \<in> set (dirs t) \<Longrightarrow> d \<notin> set exclude_dirs \<Longrightarrow>
                 dest st (d @ ''.txt'')
                   = Some (Regular (old_content (initial_dir dest_dir) (d @ ''.txt'')
                        @ concat (map module_entry (tree_files exclude_dirs [d] sub))))"
    using by_modules_files [OF assms, of src_dir] by blast
  have a: "\<exists>s. dest st (hd rel @ ''.txt'') = Some (Regular s)"
    if v: "(root, rel, fs) \<in> set (walk exclude_dirs src_dir [] t)" and "rel \<noteq> []" for root rel fs
  proof -
    from v that(2) have "(root, rel, fs) \<in> set (walk_dirs exclude_dirs src_dir [] (dirs t))"
      by (cases t) auto
    then have "hd (fst (snd (root, rel, fs))) \<in> fst ` set (dirs t) - set exclude_dirs"
      using walk_dirs_hd_top [of exclude_dirs src_dir "dirs t"] by blast
    then have "hd rel \<in> fst ` set (dirs t) - set exclude_dirs" by simp
    then obtain sub where "(hd rel, sub) \<in> set (dirs t)" "hd rel \<notin> set exclude_dirs" by auto
    from m [OF this] show ?thesis by blast
  qed
  have b: "dest st (d @ ''.txt'') = Some (Regular [])"
    if "(d, sub) \<in> set (dirs t)" "d \<notin> set exclude_dirs"
      "initial_dir dest_dir (d @ ''.txt'') = None"
      "\<forall>(p, f, r) \<in> set (tree_files exclude_dirs [d] sub). \<not> eligible f" for d sub
  proof -
    have "module_entry x = []" if "x \<in> set (tree_files exclude_dirs [d] sub)" for x
    proof -
      obtain p f r where x: "x = (p, f, r)" by (cases x)
      with that \<open>\<forall>(p, f, r) \<in> set (tree_files exclude_dirs [d] sub). \<not> eligible f\<close>
      have "\<not> eligible f" by auto
      then show ?thesis unfolding x by (cases r) simp_all
    qed
    then have "concat (map module_entry (tree_files exclude_dirs [d] sub)) = []" by simp
    with m [OF that(1,2)] that(3) show ?thesis by (simp add: old_content_def)
  qed
  from run a b show ?thesis by blast
qed

theorem per_module_file_for_every_subdirectory_witness:
  "wf_tree nested_tree
   \<and> map (fst \<circ> snd) (walk [''target''] ''root'' [] nested_tree)
       = [[], [''sub''], [''sub'', ''deep''], [''empty'']]
   \<and> (\<exists>st. save_files_as_text_by_modules ''root'' None True [''target''] nested_tree = Inr st
        \<and> (\<exists>s. dest st ''sub.txt'' = Some (Regular s))
        \<and> dest st ''empty.txt'' = Some (Regular []))"
proof -
  have nb: "\<forall>d \<in> top_dirs [''target''] nested_tree. \<not> blocked (initial_dir None) (d @ ''.txt'')"
    by (simp add: blocked_def initial_dir_def)
  have w: "map (fst \<circ> snd) (walk [''target''] ''root'' [] nested_tree)
       = [[], [''sub''], [''sub'', ''deep''], [''empty'']]"
    by (simp add: nested_tree_def)
  from per_module_file_for_every_subdirectory [OF nested_wf _ nb, of True "''root''"]
  obtain st where run: "save_files_as_text_by_modules ''root'' None True [''target''] nested_tree = Inr st"
    and a: "\<forall>(root, rel, fs) \<in> set (walk [''target''] ''root'' [] nested_tree). rel \<noteq> [] \<longrightarrow>
                 (\<exists>s. dest st (hd rel @ ''.txt'') = Some (Regular s))"
    and b: "\<forall>(d, sub) \<in> set (dirs nested_tree). d \<notin> set [''target''] \<longrightarrow>
                 initial_dir None (d @ ''.txt'') = None \<longrightarrow>
                 (\<forall>(p, f, r) \<in> set (tree_files [''target''] [d] sub). \<not> eligible f) \<longrightarrow>
                 dest st (d @ ''.txt'') = Some (Regular [])"
    by auto
  from a have "\<exists>s. dest st ''sub.txt'' = Some (Regular s)"
    by (simp add: nested_tree_def)
  moreover from b have "dest st ''empty.txt'' = Some (Regular [])"
    by (simp add: nested_tree_def initial_dir_def eligible_more)
  ultimately show ?thesis using run w nested_wf by blast
qed

end
